theory Spec2Isabelle
  imports Complex_Main "HOL-Library.Word"
begin

unbundle bit_operations_syntax

section \<open>Compile-time constants of the sketch\<close>

text \<open>
  The \<^verbatim>\<open>#define\<close>s of \<^verbatim>\<open>VibrationAnalyzer_v1.7_RTC.ino\<close>, lines 40--98.
\<close>

definition SAMPLES :: nat where
  "SAMPLES = 1024"

definition MAX_RECORDS :: int where
  "MAX_RECORDS = 30"

definition SEG_LEN :: nat where
  "SEG_LEN = 128"

definition SEG_OVERLAP_PCT :: nat where
  "SEG_OVERLAP_PCT = 50"

definition SEG_MAX :: nat where
  "SEG_MAX = 17"

definition SPEC_BINS :: nat where
  "SPEC_BINS = SEG_LEN div 2"

section \<open>Machine data\<close>

text \<open>
  The target is the ESP32 of the M5StickC Plus: little-endian, \<^verbatim>\<open>int\<close>, \<^verbatim>\<open>long\<close> and
  \<^verbatim>\<open>float\<close> are four bytes wide, structs are laid out with natural alignment.

  A \<^verbatim>\<open>float\<close> that is only stored, copied or compared for identity is its 32-bit pattern
  (\<open>float32\<close>). Functions that calculate with floats are polymorphic in the float type
  \<open>'f\<close> and take the operations of the FPU and of the libraries (\<^verbatim>\<open>sqrtf\<close>,
  \<^verbatim>\<open>log10f\<close>, arduinoFFT) as a record \<open>'f fpu\<close>: none of them is code of the sketch.

  The globals \<^verbatim>\<open>samplingFrequency\<close>, \<^verbatim>\<open>xM\<close>, \<^verbatim>\<open>yM\<close>, \<^verbatim>\<open>zM\<close> are declared
  \<^verbatim>\<open>double\<close>, but every assignment to them in the sketch has a \<^verbatim>\<open>float\<close> on its right-hand
  side (line 967, lines 978/992/1006 with \<^verbatim>\<open>ArduinoFFT<float>::majorPeak\<close>, lines 565--568),
  so they are modelled by the float they hold.

  Values of type \<^verbatim>\<open>int\<close> are modelled by \<open>int\<close>; the ring indices stay far from the
  32-bit limits whenever the cursor satisfies \<open>ring_ok\<close> below.
\<close>

type_synonym byte = "8 word"

type_synonym float32 = "32 word"

record 'f fpu =
  fadd :: "'f \<Rightarrow> 'f \<Rightarrow> 'f"
  fsub :: "'f \<Rightarrow> 'f \<Rightarrow> 'f"
  fmul :: "'f \<Rightarrow> 'f \<Rightarrow> 'f"
  fdiv :: "'f \<Rightarrow> 'f \<Rightarrow> 'f"
  flt :: "'f \<Rightarrow> 'f \<Rightarrow> bool"
  fsqrt :: "'f \<Rightarrow> 'f"
  flog10 :: "'f \<Rightarrow> 'f"
  flit :: "int \<Rightarrow> int \<Rightarrow> 'f"
  fofint :: "int \<Rightarrow> 'f"
  fftMagnitude :: "'f list \<Rightarrow> 'f list"



text \<open>C's integer division truncates towards zero, and \<^verbatim>\<open>%\<close> follows it.\<close>

definition cdiv :: "int \<Rightarrow> int \<Rightarrow> int" where
  "cdiv a b = sgn a * sgn b * (\<bar>a\<bar> div \<bar>b\<bar>)"

definition crem :: "int \<Rightarrow> int \<Rightarrow> int" where
  "crem a b = a - cdiv a b * b"

subsection \<open>Bytes of scalars\<close>

definition encodeU16 :: "16 word \<Rightarrow> byte list" where
  "encodeU16 w = [ucast w, ucast (drop_bit 8 w)]"

definition decodeU16 :: "byte list \<Rightarrow> 16 word" where
  "decodeU16 bs = ucast (bs ! 0) OR push_bit 8 (ucast (bs ! 1))"

definition encodeU32 :: "32 word \<Rightarrow> byte list" where
  "encodeU32 w = [ucast w, ucast (drop_bit 8 w), ucast (drop_bit 16 w), ucast (drop_bit 24 w)]"

definition decodeU32 :: "byte list \<Rightarrow> 32 word" where
  "decodeU32 bs = ucast (bs ! 0) OR push_bit 8 (ucast (bs ! 1))
                  OR push_bit 16 (ucast (bs ! 2)) OR push_bit 24 (ucast (bs ! 3))"

definition encodeInt :: "int \<Rightarrow> byte list" where
  \<comment> \<open>the four bytes of an \<^verbatim>\<open>int\<close> variable\<close>
  "encodeInt i = encodeU32 (word_of_int i)"

definition sizeof_float :: nat where
  "sizeof_float = 4"

definition encodeFloats :: "float32 list \<Rightarrow> byte list" where
  \<comment> \<open>the bytes of a \<^verbatim>\<open>float[]\<close> array\<close>
  "encodeFloats xs = concat (map encodeU32 xs)"

fun decodeFloats :: "byte list \<Rightarrow> float32 list" where
  "decodeFloats (a # b # c # d # rest) = decodeU32 [a, b, c, d] # decodeFloats rest"
| "decodeFloats _ = []"

subsection \<open>The structs\<close>

record RecordDateTime =
  year :: "16 word"
  month :: byte
  day :: byte
  hour :: byte
  minute :: byte
  second :: byte

record 'f RecordMeta =
  timestamp :: "32 word"
  rtcTime :: RecordDateTime
  samplingFreq :: 'f
  peakX :: 'f
  peakY :: 'f
  peakZ :: 'f
  maxX :: 'f
  maxY :: 'f
  maxZ :: 'f
  minX :: 'f
  minY :: 'f
  minZ :: 'f
  meanX :: 'f
  meanY :: 'f
  meanZ :: 'f
  sdX :: 'f
  sdY :: 'f
  sdZ :: 'f

text \<open>
  \<^verbatim>\<open>RecordDateTime\<close> has seven bytes of fields and alignment two, so it occupies eight
  bytes, the last one padding. \<^verbatim>\<open>RecordMeta\<close> is the 32-bit timestamp, the date at offset
  4 and sixteen floats from offset 12: 76 bytes. The padding byte holds whatever the
  memory held; it is an input (\<open>pad\<close>).
\<close>

definition sizeof_RecordMeta :: nat where
  "sizeof_RecordMeta = 76"

definition encodeDateTime :: "byte \<Rightarrow> RecordDateTime \<Rightarrow> byte list" where
  "encodeDateTime pad d =
     encodeU16 (year d) @ [month d, day d, hour d, minute d, second d, pad]"

definition decodeDateTime :: "byte list \<Rightarrow> RecordDateTime" where
  "decodeDateTime bs =
     \<lparr> year = decodeU16 (take 2 bs), month = bs ! 2, day = bs ! 3,
       hour = bs ! 4, minute = bs ! 5, second = bs ! 6 \<rparr>"

definition encodeMeta :: "byte \<Rightarrow> float32 RecordMeta \<Rightarrow> byte list" where
  "encodeMeta pad m =
     encodeU32 (timestamp m) @ encodeDateTime pad (rtcTime m) @
     encodeFloats [samplingFreq m, peakX m, peakY m, peakZ m,
                   maxX m, maxY m, maxZ m, minX m, minY m, minZ m,
                   meanX m, meanY m, meanZ m, sdX m, sdY m, sdZ m]"

definition floatAt :: "byte list \<Rightarrow> nat \<Rightarrow> float32" where
  "floatAt bs off = decodeU32 (take 4 (drop off bs))"

definition decodeMeta :: "byte list \<Rightarrow> float32 RecordMeta" where
  "decodeMeta bs =
     \<lparr> timestamp = decodeU32 (take 4 bs),
       rtcTime = decodeDateTime (take 8 (drop 4 bs)),
       samplingFreq = floatAt bs 12,
       peakX = floatAt bs 16, peakY = floatAt bs 20, peakZ = floatAt bs 24,
       maxX = floatAt bs 28, maxY = floatAt bs 32, maxZ = floatAt bs 36,
       minX = floatAt bs 40, minY = floatAt bs 44, minZ = floatAt bs 48,
       meanX = floatAt bs 52, meanY = floatAt bs 56, meanZ = floatAt bs 60,
       sdX = floatAt bs 64, sdY = floatAt bs 68, sdZ = floatAt bs 72 \<rparr>"

section \<open>The session: the globals of the sketch and the flash file system\<close>

text \<open>
  The globals of lines 72--131 that the storage, statistics and spectrogram code reads or
  writes. The LittleFS volume is the record files under \<^verbatim>\<open>/records\<close> and the cursor file
  \<^verbatim>\<open>/meta.dat\<close>. A record file is named \<^verbatim>\<open>rec%03d.bin\<close> after its physical index; the
  format is injective in the index, so the files are keyed by the index itself.
  The scratch arrays \<^verbatim>\<open>segReal\<close> and \<^verbatim>\<open>segImag\<close> are written and read only inside
  \<^verbatim>\<open>computeSpectrogramFromRecord\<close> and are local values there.
\<close>

record 'f session =
  storedRecordCount :: int
  currentViewRecord :: int
  oldestRecordIndex :: int
  newestRecordIndex :: int
  storageReady :: bool
  currentRecordTime :: RecordDateTime
  accXvec :: "'f list"
  accYvec :: "'f list"
  accZvec :: "'f list"
  vRealX :: "'f list"
  vRealY :: "'f list"
  vRealZ :: "'f list"
  specMag :: "'f list list"
  specSegments :: int
  specLogMin :: 'f
  specLogMax :: 'f
  samplingFrequency :: 'f
  xM :: 'f
  yM :: 'f
  zM :: 'f
  maxV :: "'f list"
  meanV :: "'f list"
  sdV :: "'f list"
  minV :: "'f list"
  recFiles :: "int \<rightharpoonup> byte list"
  metaFile :: "byte list option"

text \<open>
  What a call takes from outside the session: whether LittleFS can open the record file
  and the cursor file for writing, the value of \<^verbatim>\<open>millis()\<close>, and the indeterminate
  content of the uninitialised local \<^verbatim>\<open>RecordMeta meta\<close> (its fields and padding byte).
  Opening for reading succeeds exactly when the file exists; a write to an open file is
  taken to succeed (the sketch ignores the result of \<^verbatim>\<open>file.write\<close>).
\<close>

record env =
  openRecOk :: bool
  openMetaOk :: bool
  millisNow :: "32 word"
  padByte :: byte
  uninitMeta :: "float32 RecordMeta"

definition fileRead :: "nat \<Rightarrow> byte list \<Rightarrow> byte list \<Rightarrow> byte list \<times> byte list" where
  \<comment> \<open>\<^verbatim>\<open>file.read(p, n)\<close> on the unread rest of the file: copies the bytes that are
      there over the start of the object at \<^verbatim>\<open>p\<close> (whose bytes are \<open>mem\<close>) and advances;
      returns the object's new bytes and the new rest\<close>
  "fileRead n rest mem = (take n rest @ drop (length (take n rest)) mem, drop n rest)"

section \<open>Statistics\<close>

subsection \<open>On the save path: \<^verbatim>\<open>saveCurrentRecord\<close>, lines 474--503\<close>

definition saveStatsStep :: "'f fpu \<Rightarrow> 'f session \<Rightarrow> nat \<Rightarrow> 'f RecordMeta \<Rightarrow> 'f RecordMeta" where
  "saveStatsStep ops s i m =
     m\<lparr> maxX := (if flt ops (maxX m) (accXvec s ! i) then accXvec s ! i else maxX m),
        minX := (if flt ops (accXvec s ! i) (minX m) then accXvec s ! i else minX m),
        maxY := (if flt ops (maxY m) (accYvec s ! i) then accYvec s ! i else maxY m),
        minY := (if flt ops (accYvec s ! i) (minY m) then accYvec s ! i else minY m),
        maxZ := (if flt ops (maxZ m) (accZvec s ! i) then accZvec s ! i else maxZ m),
        minZ := (if flt ops (accZvec s ! i) (minZ m) then accZvec s ! i else minZ m),
        meanX := fadd ops (meanX m) (accXvec s ! i),
        meanY := fadd ops (meanY m) (accYvec s ! i),
        meanZ := fadd ops (meanZ m) (accZvec s ! i) \<rparr>"

definition saveSdStep :: "'f fpu \<Rightarrow> 'f session \<Rightarrow> nat \<Rightarrow> 'f RecordMeta \<Rightarrow> 'f RecordMeta" where
  "saveSdStep ops s i m =
     m\<lparr> sdX := fadd ops (sdX m) (fmul ops (fsub ops (accXvec s ! i) (meanX m))
                                            (fsub ops (accXvec s ! i) (meanX m))),
        sdY := fadd ops (sdY m) (fmul ops (fsub ops (accYvec s ! i) (meanY m))
                                            (fsub ops (accYvec s ! i) (meanY m))),
        sdZ := fadd ops (sdZ m) (fmul ops (fsub ops (accZvec s ! i) (meanZ m))
                                            (fsub ops (accZvec s ! i) (meanZ m))) \<rparr>"

definition saveStats :: "'f fpu \<Rightarrow> 'f session \<Rightarrow> 'f RecordMeta \<Rightarrow> 'f RecordMeta" where
  "saveStats ops s m0 =
     (let m1 = m0\<lparr> maxX := flit ops (- 9999) 0, maxY := flit ops (- 9999) 0,
                    maxZ := flit ops (- 9999) 0,
                    minX := flit ops 9999 0, minY := flit ops 9999 0, minZ := flit ops 9999 0,
                    meanX := flit ops 0 0, meanY := flit ops 0 0, meanZ := flit ops 0 0 \<rparr>;
          m2 = fold (saveStatsStep ops s) [0..<SAMPLES] m1;
          m3 = m2\<lparr> meanX := fdiv ops (meanX m2) (fofint ops (int SAMPLES)),
                    meanY := fdiv ops (meanY m2) (fofint ops (int SAMPLES)),
                    meanZ := fdiv ops (meanZ m2) (fofint ops (int SAMPLES)) \<rparr>;
          m4 = m3\<lparr> sdX := flit ops 0 0, sdY := flit ops 0 0, sdZ := flit ops 0 0 \<rparr>;
          m5 = fold (saveSdStep ops s) [0..<SAMPLES] m4
      in m5\<lparr> sdX := fsqrt ops (fdiv ops (sdX m5) (fofint ops (int SAMPLES))),
              sdY := fsqrt ops (fdiv ops (sdY m5) (fofint ops (int SAMPLES))),
              sdZ := fsqrt ops (fdiv ops (sdZ m5) (fofint ops (int SAMPLES))) \<rparr>)"

subsection \<open>On the display path: \<^verbatim>\<open>drawStatisticsScreen\<close>, lines 1232--1277\<close>






section \<open>The spectrogram builder: \<^verbatim>\<open>computeSpectrogramFromRecord\<close>, lines 761--813\<close>

definition overlapSamples :: nat where
  "overlapSamples =
     (let ov = (SEG_LEN * SEG_OVERLAP_PCT) div 100
      in if ov \<ge> SEG_LEN then SEG_LEN - 1 else ov)"

definition hop :: nat where
  "hop = SEG_LEN - overlapSamples"

definition totalMagnitude :: "'f fpu \<Rightarrow> 'f session \<Rightarrow> nat \<Rightarrow> 'f list" where
  \<comment> \<open>lines 771--777: \<^verbatim>\<open>segReal[i] = sqrtf(ax * ax + ay * ay + az * az)\<close>\<close>
  "totalMagnitude ops s start =
     map (\<lambda>i. let ax = accXvec s ! (start + i);
                   ay = accYvec s ! (start + i);
                   az = accZvec s ! (start + i)
               in fsqrt ops (fadd ops (fadd ops (fmul ops ax ax) (fmul ops ay ay))
                                      (fmul ops az az)))
         [0..<SEG_LEN]"

definition specBin :: "'f fpu \<Rightarrow> 'f list \<Rightarrow> nat \<Rightarrow> 'f session \<Rightarrow> 'f session" where
  \<comment> \<open>lines 785--792, one pass of the loop over \<^verbatim>\<open>k\<close>\<close>
  "specBin ops segReal k s =
     (let mag = segReal ! k;
          mag' = (if flt ops mag (flit ops 1 (- 9)) then flit ops 1 (- 9) else mag);
          lv = flog10 ops mag';
          row = nat (specSegments s);
          s1 = s\<lparr> specMag := (specMag s)[row := (specMag s ! row)[k := lv]] \<rparr>;
          s2 = (if flt ops lv (specLogMin s1) then s1\<lparr> specLogMin := lv \<rparr> else s1)
      in if flt ops (specLogMax s2) lv then s2\<lparr> specLogMax := lv \<rparr> else s2)"

definition specSegment :: "'f fpu \<Rightarrow> nat \<Rightarrow> 'f session \<Rightarrow> 'f session" where
  \<comment> \<open>lines 771--795, one pass of the loop over \<^verbatim>\<open>start\<close>\<close>
  "specSegment ops start s =
     (let segReal = fftMagnitude ops (totalMagnitude ops s start);
          s1 = fold (specBin ops segReal) [0..<SPEC_BINS] s
      in s1\<lparr> specSegments := specSegments s1 + 1 \<rparr>)"

function specLoop :: "'f fpu \<Rightarrow> nat \<Rightarrow> 'f session \<Rightarrow> 'f session" where
  "specLoop ops start s =
     (if start + SEG_LEN \<le> SAMPLES \<and> specSegments s < int SEG_MAX
      then specLoop ops (start + hop) (specSegment ops start s)
      else s)"
  by pat_completeness auto
termination
  by (relation "measure (\<lambda>(ops, start, s). SAMPLES - start)")
     (auto simp: hop_def overlapSamples_def SEG_LEN_def SEG_OVERLAP_PCT_def SAMPLES_def)

declare specLoop.simps [simp del]

definition specFinish :: "'f fpu \<Rightarrow> 'f session \<Rightarrow> 'f session" where
  \<comment> \<open>lines 798--812\<close>
  "specFinish ops s =
     (let s1 = (if specSegments s = 0
                then s\<lparr> specSegments := 1,
                        specMag := (specMag s)
                          [0 := fold (\<lambda>k row. row[k := flit ops 0 0]) [0..<SPEC_BINS] (specMag s ! 0)],
                        specLogMin := flit ops 0 0,
                        specLogMax := flit ops 1 0 \<rparr>
                else s);
          s2 = (if flt ops (fsub ops (specLogMax s1) (specLogMin s1)) (flit ops 1 (- 3))
                then s1\<lparr> specLogMax := fadd ops (specLogMin s1) (flit ops 1 (- 3)) \<rparr>
                else s1);
          span = fsub ops (specLogMax s2) (specLogMin s2)
      in if flt ops (flit ops 3 0) span
         then s2\<lparr> specLogMin := fsub ops (specLogMax s2) (flit ops 3 0) \<rparr>
         else s2)"

definition computeSpectrogramFromRecord :: "'f fpu \<Rightarrow> 'f session \<Rightarrow> 'f session" where
  "computeSpectrogramFromRecord ops s =
     specFinish ops
       (specLoop ops 0
          (s\<lparr> specSegments := 0, specLogMin := flit ops 1 9, specLogMax := flit ops (- 1) 9 \<rparr>))"


section \<open>The record store\<close>

definition saveStorageMetadata :: "env \<Rightarrow> 'f session \<Rightarrow> 'f session" where
  \<comment> \<open>lines 409--417\<close>
  "saveStorageMetadata e s =
     (if openMetaOk e
      then s\<lparr> metaFile := Some (encodeInt (storedRecordCount s) @
                                  encodeInt (oldestRecordIndex s) @
                                  encodeInt (newestRecordIndex s)) \<rparr>
      else s)"

definition buildMeta :: "float32 fpu \<Rightarrow> env \<Rightarrow> float32 session \<Rightarrow> float32 RecordMeta" where
  \<comment> \<open>lines 466--503\<close>
  "buildMeta ops e s =
     saveStats ops s
       ((uninitMeta e)\<lparr> timestamp := millisNow e,
                         rtcTime := currentRecordTime s,
                         samplingFreq := samplingFrequency s,
                         peakX := xM s, peakY := yM s, peakZ := zM s \<rparr>)"

definition recordBytes :: "env \<Rightarrow> float32 RecordMeta \<Rightarrow> float32 session \<Rightarrow> byte list" where
  \<comment> \<open>lines 511--522: the seven \<^verbatim>\<open>file.write\<close> calls, in order\<close>
  "recordBytes e meta s =
     take sizeof_RecordMeta (encodeMeta (padByte e) meta) @
     take (SAMPLES * sizeof_float) (encodeFloats (accXvec s)) @
     take (SAMPLES * sizeof_float) (encodeFloats (accYvec s)) @
     take (SAMPLES * sizeof_float) (encodeFloats (accZvec s)) @
     take (SAMPLES * sizeof_float) (encodeFloats (vRealX s)) @
     take (SAMPLES * sizeof_float) (encodeFloats (vRealY s)) @
     take (SAMPLES * sizeof_float) (encodeFloats (vRealZ s))"

definition advanceRing :: "'f session \<Rightarrow> 'f session" where
  \<comment> \<open>lines 446--454: the next physical index, then evict or count\<close>
  "advanceRing s =
     (let s1 = s\<lparr> newestRecordIndex := crem (newestRecordIndex s + 1) MAX_RECORDS \<rparr>
      in if storedRecordCount s1 \<ge> MAX_RECORDS
         then s1\<lparr> oldestRecordIndex := crem (oldestRecordIndex s1 + 1) MAX_RECORDS \<rparr>
         else s1\<lparr> storedRecordCount := storedRecordCount s1 + 1 \<rparr>)"

definition saveCurrentRecord :: "float32 fpu \<Rightarrow> env \<Rightarrow> float32 session \<Rightarrow> bool \<times> float32 session" where
  \<comment> \<open>lines 443--540; the serial output is not modelled\<close>
  "saveCurrentRecord ops e s =
     (if \<not> storageReady s then (False, s)
      else
        let s2 = advanceRing s
        in if \<not> openRecOk e then (False, s2)
           else
             let meta = buildMeta ops e s2;
                 s3 = s2\<lparr> maxV := [maxX meta, maxY meta, maxZ meta],
                           minV := [minX meta, minY meta, minZ meta],
                           meanV := [meanX meta, meanY meta, meanZ meta],
                           sdV := [sdX meta, sdY meta, sdZ meta] \<rparr>;
                 s4 = s3\<lparr> recFiles := (recFiles s3)(newestRecordIndex s3 \<mapsto> recordBytes e meta s3) \<rparr>
             in (True, saveStorageMetadata e s4))"

definition loadRecord :: "float32 fpu \<Rightarrow> env \<Rightarrow> int \<Rightarrow> float32 session \<Rightarrow> bool \<times> float32 session" where
  \<comment> \<open>lines 543--601; the serial output is not modelled\<close>
  "loadRecord ops e logicalIndex0 s =
     (if \<not> storageReady s \<or> logicalIndex0 < 0 \<or> storedRecordCount s = 0 then (False, s)
      else
        let logicalIndex = (if logicalIndex0 \<ge> storedRecordCount s
                            then storedRecordCount s - 1 else logicalIndex0);
            fileIndex = crem (oldestRecordIndex s + logicalIndex) MAX_RECORDS
        in case recFiles s fileIndex of
             None \<Rightarrow> (False, s)
           | Some f0 \<Rightarrow>
               let (mb, f1) = fileRead sizeof_RecordMeta f0 (encodeMeta (padByte e) (uninitMeta e));
                   meta = decodeMeta mb;
                   s1 = s\<lparr> samplingFrequency := samplingFreq meta,
                           xM := peakX meta, yM := peakY meta, zM := peakZ meta,
                           currentRecordTime := rtcTime meta,
                           maxV := [maxX meta, maxY meta, maxZ meta],
                           minV := [minX meta, minY meta, minZ meta],
                           meanV := [meanX meta, meanY meta, meanZ meta],
                           sdV := [sdX meta, sdY meta, sdZ meta] \<rparr>;
                   (rx, f2) = fileRead (SAMPLES * sizeof_float) f1 (encodeFloats (accXvec s1));
                   (ry, f3) = fileRead (SAMPLES * sizeof_float) f2 (encodeFloats (accYvec s1));
                   (rz, f4) = fileRead (SAMPLES * sizeof_float) f3 (encodeFloats (accZvec s1));
                   (vx, f5) = fileRead (SAMPLES * sizeof_float) f4 (encodeFloats (vRealX s1));
                   (vy, f6) = fileRead (SAMPLES * sizeof_float) f5 (encodeFloats (vRealY s1));
                   (vz, f7) = fileRead (SAMPLES * sizeof_float) f6 (encodeFloats (vRealZ s1));
                   s2 = s1\<lparr> accXvec := decodeFloats rx, accYvec := decodeFloats ry,
                            accZvec := decodeFloats rz,
                            vRealX := decodeFloats vx, vRealY := decodeFloats vy,
                            vRealZ := decodeFloats vz \<rparr>;
                   s3 = computeSpectrogramFromRecord ops s2
               in (True, s3\<lparr> currentViewRecord := logicalIndex \<rparr>))"

definition exportAllRecordsSerial :: "float32 fpu \<Rightarrow> env \<Rightarrow> float32 session \<Rightarrow> float32 session" where
  \<comment> \<open>lines 655--724; the serial output is not modelled\<close>
  "exportAllRecordsSerial ops e s =
     (let savedViewRecord = currentViewRecord s;
          savedRecordTime = currentRecordTime s;
          s1 = fold (\<lambda>r st. snd (loadRecord ops e r st)) [0 .. storedRecordCount s - 1] s;
          s2 = (if savedViewRecord \<ge> 0 then snd (loadRecord ops e savedViewRecord s1) else s1)
      in s2\<lparr> currentViewRecord := savedViewRecord, currentRecordTime := savedRecordTime \<rparr>)"

definition ring_ok :: "'f session \<Rightarrow> bool" where
  \<comment> \<open>the cursor of a ring that was reset (lines 435--437, 623--625) and then only
      appended to: the slot after the newest is \<open>count\<close> slots after the oldest\<close>
  "ring_ok s \<longleftrightarrow>
     0 \<le> storedRecordCount s \<and> storedRecordCount s \<le> MAX_RECORDS \<and>
     0 \<le> oldestRecordIndex s \<and> oldestRecordIndex s < MAX_RECORDS \<and>
     - 1 \<le> newestRecordIndex s \<and> newestRecordIndex s < MAX_RECORDS \<and>
     (newestRecordIndex s + 1) mod MAX_RECORDS =
       (oldestRecordIndex s + storedRecordCount s) mod MAX_RECORDS"

definition buffers_ok :: "'f session \<Rightarrow> bool" where
  \<comment> \<open>the six data arrays are declared with \<^verbatim>\<open>SAMPLES\<close> elements (lines 83--89)\<close>
  "buffers_ok s \<longleftrightarrow>
     length (accXvec s) = SAMPLES \<and> length (accYvec s) = SAMPLES \<and>
     length (accZvec s) = SAMPLES \<and> length (vRealX s) = SAMPLES \<and>
     length (vRealY s) = SAMPLES \<and> length (vRealZ s) = SAMPLES"

subsection \<open>A completed acquisition: \<^verbatim>\<open>loop\<close>, lines 956--1018\<close>

text \<open>
  What the sampling branch (lines 1197--1209) and the FFT block (lines 960--1009) leave in
  the live globals comes from the IMU, the clocks and arduinoFFT; it is given as a
  \<open>capture\<close>. The rest of the block is the sketch's own: rebuild the spectrogram, save
  when the storage is ready, mark the view as live.
\<close>

record capture =
  c_time :: RecordDateTime
  c_fs :: float32
  c_peakX :: float32
  c_peakY :: float32
  c_peakZ :: float32
  c_accX :: "float32 list"
  c_accY :: "float32 list"
  c_accZ :: "float32 list"
  c_specX :: "float32 list"
  c_specY :: "float32 list"
  c_specZ :: "float32 list"

definition capture_ok :: "capture \<Rightarrow> bool" where
  "capture_ok c \<longleftrightarrow>
     length (c_accX c) = SAMPLES \<and> length (c_accY c) = SAMPLES \<and>
     length (c_accZ c) = SAMPLES \<and> length (c_specX c) = SAMPLES \<and>
     length (c_specY c) = SAMPLES \<and> length (c_specZ c) = SAMPLES"

definition liveCapture :: "capture \<Rightarrow> float32 session \<Rightarrow> float32 session" where
  \<comment> \<open>the given values in the live globals\<close>
  "liveCapture c s =
     s\<lparr> currentRecordTime := c_time c,
        accXvec := c_accX c, accYvec := c_accY c, accZvec := c_accZ c,
        samplingFrequency := c_fs c,
        xM := c_peakX c, yM := c_peakY c, zM := c_peakZ c,
        vRealX := c_specX c, vRealY := c_specY c, vRealZ := c_specZ c \<rparr>"

definition finishAcquisition :: "float32 fpu \<Rightarrow> env \<Rightarrow> capture \<Rightarrow> float32 session \<Rightarrow> float32 session" where
  "finishAcquisition ops e c s =
     (let s2 = computeSpectrogramFromRecord ops (liveCapture c s);
          s3 = (if storageReady s2 then snd (saveCurrentRecord ops e s2) else s2)
      in s3\<lparr> currentViewRecord := - 1 \<rparr>)"

definition acquireAll :: "float32 fpu \<Rightarrow> env \<Rightarrow> capture list \<Rightarrow> float32 session \<Rightarrow> float32 session" where
  \<comment> \<open>one acquisition after the other\<close>
  "acquireAll ops e cs s = fold (finishAcquisition ops e) cs s"

section \<open>The measured sampling frequency: \<^verbatim>\<open>loop\<close>, lines 960--967\<close>




section \<open>Setting the clock: \<^verbatim>\<open>parseAndSetTime\<close>, lines 185--251\<close>

text \<open>
  The members of Arduino's \<^verbatim>\<open>String\<close> that the function calls, after the ESP32 core:
  \<^verbatim>\<open>trim\<close> drops the \<^verbatim>\<open>isspace\<close> characters at both ends, \<^verbatim>\<open>substring(left, right)\<close>
  swaps its arguments when \<^verbatim>\<open>left > right\<close>, is empty when \<^verbatim>\<open>left\<close> is past the end and
  cuts \<^verbatim>\<open>right\<close> to the length, \<^verbatim>\<open>toInt\<close> is C's \<^verbatim>\<open>atol\<close>: white space, an optional sign,
  then decimal digits up to the first other character. \<^verbatim>\<open>atol\<close> is called on at most four
  characters here, so its value is far from the limits of \<^verbatim>\<open>long\<close>.
\<close>

definition isspace :: "char \<Rightarrow> bool" where
  "isspace c \<longleftrightarrow> (of_char c :: nat) \<in> {32, 9, 10, 11, 12, 13}"

definition isdigit :: "char \<Rightarrow> bool" where
  "isdigit c \<longleftrightarrow> 48 \<le> (of_char c :: nat) \<and> (of_char c :: nat) \<le> 57"

definition trim :: "string \<Rightarrow> string" where
  "trim s = rev (dropWhile isspace (rev (dropWhile isspace s)))"

definition substring :: "nat \<Rightarrow> nat \<Rightarrow> string \<Rightarrow> string" where
  "substring left right s =
     (let l = min left right; r = max left right
      in if l \<ge> length s then [] else take (min r (length s) - l) (drop l s))"

fun digitsVal :: "int \<Rightarrow> string \<Rightarrow> int" where
  "digitsVal acc [] = acc"
| "digitsVal acc (c # cs) =
     (if isdigit c then digitsVal (acc * 10 + (int (of_char c) - 48)) cs else acc)"

definition toInt :: "string \<Rightarrow> int" where
  "toInt s =
     (case dropWhile isspace s of
        [] \<Rightarrow> 0
      | c # cs \<Rightarrow>
          if c = CHR ''-'' then - digitsVal 0 cs
          else if c = CHR ''+'' then digitsVal 0 cs
          else digitsVal 0 (c # cs))"

definition setRtcTime :: "RecordDateTime \<Rightarrow> RecordDateTime \<Rightarrow> RecordDateTime" where
  \<comment> \<open>lines 168--182; the clock chip holds a date and a time\<close>
  "setRtcTime dt rtc =
     rtc\<lparr> year := year dt, month := month dt, day := day dt,
          hour := hour dt, minute := minute dt, second := second dt \<rparr>"

definition parseFields :: "string \<Rightarrow> RecordDateTime" where
  \<comment> \<open>lines 197--215: each \<^verbatim>\<open>long\<close> is cut to the width of its field\<close>
  "parseFields timeStr =
     \<lparr> year = word_of_int (toInt (substring 0 4 timeStr)),
       month = word_of_int (toInt (substring 5 7 timeStr)),
       day = word_of_int (toInt (substring 8 10 timeStr)),
       hour = word_of_int (toInt (substring 11 13 timeStr)),
       minute = word_of_int (toInt (substring 14 16 timeStr)),
       second = word_of_int (toInt (substring 17 19 timeStr)) \<rparr>"

definition parseAndSetTime :: "string \<Rightarrow> RecordDateTime \<Rightarrow> bool \<times> RecordDateTime" where
  \<comment> \<open>takes the string and the clock, returns the result and the clock\<close>
  "parseAndSetTime timeStr0 rtc =
     (let timeStr = trim timeStr0
      in if length timeStr < 19 then (False, rtc)
         else
           let dt = parseFields timeStr
           in if year dt < 2020 \<or> year dt > 2099 then (False, rtc)
              else if month dt < 1 \<or> month dt > 12 then (False, rtc)
              else if day dt < 1 \<or> day dt > 31 then (False, rtc)
              else if hour dt > 23 then (False, rtc)
              else if minute dt > 59 then (False, rtc)
              else if second dt > 59 then (False, rtc)
              else (True, setRtcTime dt rtc))"

section \<open>Two instances of the float operations\<close>

definition exact_fpu :: "('a \<Rightarrow> 'a) \<Rightarrow> ('a \<Rightarrow> 'a) \<Rightarrow> ('a list \<Rightarrow> 'a list) \<Rightarrow> ('a :: linordered_field) fpu" where
  \<comment> \<open>the arithmetic without rounding, NaN or infinities: the operations of an ordered
      field; the library functions stay parameters\<close>
  "exact_fpu sq lg fft =
     \<lparr> fadd = (+), fsub = (-), fmul = (*), fdiv = (/), flt = (<),
       fsqrt = sq, flog10 = lg,
       flit = (\<lambda>m e. of_int m * (if 0 \<le> e then 10 ^ nat e else 1 / 10 ^ nat (- e))),
       fofint = of_int, fftMagnitude = fft \<rparr>"

definition stub_fpu :: "float32 fpu" where
  \<comment> \<open>operations on bit patterns for closed examples whose outcome does not depend on
      any float calculation\<close>
  "stub_fpu =
     \<lparr> fadd = (+), fsub = (-), fmul = (*), fdiv = (div), flt = (<),
       fsqrt = id, flog10 = id,
       flit = (\<lambda>m e. word_of_int m), fofint = word_of_int, fftMagnitude = id \<rparr>"

section \<open>Binary32 arithmetic\<close>

text \<open>
  The float operations of the target are those of IEEE 754 binary32, rounding to nearest
  with ties to even. A pattern is a sign (bit 31) and a key (bits 30 to 0): keys below
  \<open>2\<^sup>2\<^sup>3\<close> are zero and the subnormal numbers, keys below \<open>255 \<cdot> 2\<^sup>2\<^sup>3\<close> are finite, that
  key is infinity and the keys above it are NaN. The magnitudes grow with the key, so that
  the nearest pattern to a rational magnitude \<open>a\<close> is found from the exponent of \<open>a\<close> and
  the rounded quotient of \<open>a\<close> by the unit in the last place: \<open>round_key\<close>. Its value,
  when there is no overflow, is \<open>rnd a\<close>.

  The results of \<^verbatim>\<open>+\<close>, \<^verbatim>\<open>-\<close>, \<^verbatim>\<open>*\<close>, \<^verbatim>\<open>/\<close>, \<^verbatim>\<open>sqrtf\<close>, of the cast of an integer
  and of a decimal literal are the exact results rounded once; \<^verbatim>\<open><\<close> is false when an
  operand is NaN. \<^verbatim>\<open>log10f\<close> and arduinoFFT stay parameters of the operations.
\<close>

definition pow2 :: "int \<Rightarrow> rat" where
  "pow2 e = (if 0 \<le> e then 2 ^ nat e else 1 / 2 ^ nat (- e))"

definition pow10 :: "int \<Rightarrow> rat" where
  "pow10 e = (if 0 \<le> e then 10 ^ nat e else 1 / 10 ^ nat (- e))"

function nbits :: "int \<Rightarrow> int" where
  \<comment> \<open>the number of binary digits of a positive integer\<close>
  "nbits n = (if n \<le> 0 then 0 else 1 + nbits (n div 2))"
  by pat_completeness auto
termination
proof (relation "measure nat")
  show "wf (measure nat)" by simp
next
  fix n :: int
  assume "\<not> n \<le> 0"
  then have "n div 2 < n" by linarith
  with \<open>\<not> n \<le> 0\<close> show "(n div 2, n) \<in> measure nat" by simp
qed

declare nbits.simps [simp del]

definition ilog2 :: "rat \<Rightarrow> int" where
  \<comment> \<open>for positive \<open>x\<close>, the exponent \<open>e\<close> with \<open>2\<^sup>e \<le> x < 2\<^sup>e\<^sup>+\<^sup>1\<close>\<close>
  "ilog2 x =
     (let (n, d) = quotient_of x;
          k = nbits n - nbits d
      in if pow2 k \<le> x then k else k - 1)"

definition rhe :: "rat \<Rightarrow> int" where
  \<comment> \<open>the nearest integer, the even one of two nearest\<close>
  "rhe x =
     (let f = \<lfloor>x\<rfloor>; d = x - of_int f
      in if d < 1 / 2 then f else if 1 / 2 < d then f + 1 else if even f then f else f + 1)"

function isqrt :: "int \<Rightarrow> int" where
  \<comment> \<open>the integer part of the square root\<close>
  "isqrt n =
     (if n < 1 then 0
      else let r = 2 * isqrt (n div 4) in if (r + 1) * (r + 1) \<le> n then r + 1 else r)"
  by pat_completeness auto
termination
proof (relation "measure nat")
  show "wf (measure nat)" by simp
next
  fix n :: int
  assume "\<not> n < 1"
  then have "n div 4 < n" by linarith
  with \<open>\<not> n < 1\<close> show "(n div 4, n) \<in> measure nat" by simp
qed

declare isqrt.simps [simp del]

definition f_key :: "float32 \<Rightarrow> int" where
  "f_key w = uint w mod 2 ^ 31"

definition f_neg :: "float32 \<Rightarrow> bool" where
  "f_neg w \<longleftrightarrow> 2 ^ 31 \<le> uint w"

definition inf_key :: int where
  "inf_key = 255 * 2 ^ 23"

definition is_nan :: "float32 \<Rightarrow> bool" where
  "is_nan w \<longleftrightarrow> inf_key < f_key w"

definition is_inf :: "float32 \<Rightarrow> bool" where
  "is_inf w \<longleftrightarrow> f_key w = inf_key"

definition is_fin :: "float32 \<Rightarrow> bool" where
  "is_fin w \<longleftrightarrow> f_key w < inf_key"

definition f_mag :: "float32 \<Rightarrow> rat" where
  \<comment> \<open>the magnitude of a finite pattern\<close>
  "f_mag w =
     (let k = f_key w
      in if k < 2 ^ 23 then of_int k * pow2 (- 149)
         else of_int (2 ^ 23 + k mod 2 ^ 23) * pow2 (k div 2 ^ 23 - 150))"

definition f_val :: "float32 \<Rightarrow> rat" where
  \<comment> \<open>the value of a finite pattern\<close>
  "f_val w = (if f_neg w then - f_mag w else f_mag w)"

definition f_pack :: "bool \<Rightarrow> int \<Rightarrow> float32" where
  "f_pack sg k = word_of_int ((if sg then 2 ^ 31 else 0) + k)"

definition f_nan :: float32 where
  "f_nan = f_pack False (inf_key + 2 ^ 22)"

definition quantum :: "rat \<Rightarrow> int" where
  \<comment> \<open>the exponent of the unit in the last place for a magnitude \<open>a\<close>\<close>
  "quantum a = max (ilog2 a) (- 126) - 23"

definition round_key :: "rat \<Rightarrow> int" where
  \<comment> \<open>the key of the pattern nearest to the magnitude \<open>a\<close>; infinity on overflow\<close>
  "round_key a =
     (if a = 0 then 0
      else min ((quantum a + 149) * 2 ^ 23 + rhe (a / pow2 (quantum a))) inf_key)"

definition rnd :: "rat \<Rightarrow> rat" where
  \<comment> \<open>the magnitude \<open>a\<close> rounded to 24 significant bits, or to a multiple of \<open>2\<^sup>-\<^sup>1\<^sup>4\<^sup>9\<close>\<close>
  "rnd a = (if a = 0 then 0 else of_int (rhe (a / pow2 (quantum a))) * pow2 (quantum a))"

definition rndv :: "rat \<Rightarrow> rat" where
  "rndv x = (if x < 0 then - rnd (- x) else rnd x)"

definition f_round :: "rat \<Rightarrow> float32" where
  "f_round x = f_pack (x < 0) (round_key \<bar>x\<bar>)"

definition f_flip :: "float32 \<Rightarrow> float32" where
  "f_flip w = f_pack (\<not> f_neg w) (f_key w)"

definition f_add :: "float32 \<Rightarrow> float32 \<Rightarrow> float32" where
  "f_add a b =
     (if is_nan a \<or> is_nan b then f_nan
      else if is_inf a then (if is_inf b \<and> f_neg a \<noteq> f_neg b then f_nan else a)
      else if is_inf b then b
      else let x = f_val a + f_val b
           in if x = 0 then f_pack (f_neg a \<and> f_neg b) 0 else f_round x)"

definition f_sub :: "float32 \<Rightarrow> float32 \<Rightarrow> float32" where
  "f_sub a b = f_add a (f_flip b)"

definition f_mul :: "float32 \<Rightarrow> float32 \<Rightarrow> float32" where
  "f_mul a b =
     (let sg = (f_neg a \<noteq> f_neg b)
      in if is_nan a \<or> is_nan b then f_nan
         else if is_inf a \<or> is_inf b
         then (if f_key a = 0 \<or> f_key b = 0 then f_nan else f_pack sg inf_key)
         else f_pack sg (round_key (f_mag a * f_mag b)))"

definition f_div :: "float32 \<Rightarrow> float32 \<Rightarrow> float32" where
  "f_div a b =
     (let sg = (f_neg a \<noteq> f_neg b)
      in if is_nan a \<or> is_nan b then f_nan
         else if is_inf a then (if is_inf b then f_nan else f_pack sg inf_key)
         else if is_inf b then f_pack sg 0
         else if f_key b = 0 then (if f_key a = 0 then f_nan else f_pack sg inf_key)
         else f_pack sg (round_key (f_mag a / f_mag b)))"

definition f_lt :: "float32 \<Rightarrow> float32 \<Rightarrow> bool" where
  "f_lt a b \<longleftrightarrow>
     \<not> is_nan a \<and> \<not> is_nan b \<and>
     (if is_inf a then f_neg a \<and> \<not> (is_inf b \<and> f_neg b)
      else if is_inf b then \<not> f_neg b
      else f_val a < f_val b)"

definition sqrt_key :: "rat \<Rightarrow> int" where
  \<comment> \<open>the key of the pattern nearest to the square root of a positive magnitude\<close>
  "sqrt_key a =
     (let q = ilog2 a div 2 - 23;
          n = a / pow2 (2 * q);
          m0 = isqrt \<lfloor>n\<rfloor>;
          h = (of_int m0 + 1 / 2) * (of_int m0 + 1 / 2);
          m = (if n < h then m0 else if h < n then m0 + 1 else if even m0 then m0 else m0 + 1)
      in (q + 149) * 2 ^ 23 + m)"

definition f_sqrt :: "float32 \<Rightarrow> float32" where
  "f_sqrt a =
     (if is_nan a then f_nan
      else if f_key a = 0 then a
      else if f_neg a then f_nan
      else if is_inf a then a
      else f_pack False (sqrt_key (f_mag a)))"

definition f_ofint :: "int \<Rightarrow> float32" where
  "f_ofint i = f_round (of_int i)"

definition f_lit :: "int \<Rightarrow> int \<Rightarrow> float32" where
  "f_lit m e = f_round (of_int m * pow10 e)"

definition ieee_fpu :: "(float32 \<Rightarrow> float32) \<Rightarrow> (float32 list \<Rightarrow> float32 list) \<Rightarrow> float32 fpu" where
  \<comment> \<open>\<open>lg\<close> is \<^verbatim>\<open>log10f\<close>, \<open>fft\<close> the four calls of arduinoFFT\<close>
  "ieee_fpu lg fft =
     \<lparr> fadd = f_add, fsub = f_sub, fmul = f_mul, fdiv = f_div, flt = f_lt,
       fsqrt = f_sqrt, flog10 = lg, flit = f_lit, fofint = f_ofint, fftMagnitude = fft \<rparr>"

section \<open>Reference sessions and derived notions\<close>

text \<open>
  The globals after \<^verbatim>\<open>setup()\<close> on a mounted volume without a cursor file: the
  initialisers of lines 76--131 and the reset of \<^verbatim>\<open>loadStorageMetadata\<close> (lines 435--437).
  \<^verbatim>\<open>specLogMax\<close> starts as \<^verbatim>\<open>1.0f\<close>, bit pattern \<open>0x3F800000\<close>.
\<close>

definition zeroTime :: RecordDateTime where
  "zeroTime = \<lparr> year = 0, month = 0, day = 0, hour = 0, minute = 0, second = 0 \<rparr>"

definition initSession :: "'f \<Rightarrow> 'f \<Rightarrow> 'f session" where
  \<comment> \<open>\<open>zero\<close> and \<open>one\<close> are the floats \<^verbatim>\<open>0.0f\<close> and \<^verbatim>\<open>1.0f\<close>\<close>
  "initSession zero one =
     \<lparr> storedRecordCount = 0, currentViewRecord = - 1, oldestRecordIndex = 0,
       newestRecordIndex = - 1, storageReady = True, currentRecordTime = zeroTime,
       accXvec = replicate SAMPLES zero, accYvec = replicate SAMPLES zero,
       accZvec = replicate SAMPLES zero, vRealX = replicate SAMPLES zero,
       vRealY = replicate SAMPLES zero, vRealZ = replicate SAMPLES zero,
       specMag = replicate SEG_MAX (replicate SPEC_BINS zero), specSegments = 0,
       specLogMin = zero, specLogMax = one,
       samplingFrequency = zero, xM = zero, yM = zero, zM = zero,
       maxV = replicate 3 zero, meanV = replicate 3 zero, sdV = replicate 3 zero,
       minV = replicate 3 zero,
       recFiles = Map.empty, metaFile = None \<rparr>"

definition bootSession :: "float32 session" where
  "bootSession = initSession 0 0x3F800000"

definition demoEnv :: env where
  \<comment> \<open>both files can be opened, \<^verbatim>\<open>millis()\<close> is 1000, the stack holds zeros\<close>
  "demoEnv =
     \<lparr> openRecOk = True, openMetaOk = True, millisNow = 1000, padByte = 0,
       uninitMeta = \<lparr> timestamp = 0, rtcTime = zeroTime, samplingFreq = 0,
                      peakX = 0, peakY = 0, peakZ = 0, maxX = 0, maxY = 0, maxZ = 0,
                      minX = 0, minY = 0, minZ = 0, meanX = 0, meanY = 0, meanZ = 0,
                      sdX = 0, sdY = 0, sdZ = 0 \<rparr> \<rparr>"

definition oneRecordSession :: "float32 session" where
  \<comment> \<open>the store after the first save\<close>
  "oneRecordSession = snd (saveCurrentRecord stub_fpu demoEnv bootSession)"

text \<open>
  The bytes of a record file when the six arrays have their declared length, the session
  a successful save leaves, and the session \<^verbatim>\<open>loadRecord\<close> leaves when it reads a
  header \<open>m\<close> and six full arrays (lines 565--592).
\<close>

definition recordImage :: "byte \<Rightarrow> float32 RecordMeta \<Rightarrow> float32 session \<Rightarrow> byte list" where
  "recordImage p m s =
     encodeMeta p m @ encodeFloats (accXvec s) @ encodeFloats (accYvec s) @
     encodeFloats (accZvec s) @ encodeFloats (vRealX s) @ encodeFloats (vRealY s) @
     encodeFloats (vRealZ s)"

definition savedSession :: "float32 fpu \<Rightarrow> env \<Rightarrow> float32 session \<Rightarrow> float32 session" where
  "savedSession ops e s =
     (let m = buildMeta ops e s; s2 = advanceRing s
      in saveStorageMetadata e
           (s2\<lparr> maxV := [maxX m, maxY m, maxZ m],
                 minV := [minX m, minY m, minZ m],
                 meanV := [meanX m, meanY m, meanZ m],
                 sdV := [sdX m, sdY m, sdZ m],
                 recFiles := (recFiles s)(newestRecordIndex s2 \<mapsto> recordImage (padByte e) m s) \<rparr>))"

definition loadedFrom :: "float32 fpu \<Rightarrow> float32 RecordMeta \<Rightarrow> float32 list \<Rightarrow> float32 list \<Rightarrow> float32 list \<Rightarrow> float32 list \<Rightarrow> float32 list \<Rightarrow> float32 list \<Rightarrow> int \<Rightarrow> float32 session \<Rightarrow> float32 session" where
  "loadedFrom ops m a1 a2 a3 a4 a5 a6 i s =
     (computeSpectrogramFromRecord ops
        (s\<lparr> samplingFrequency := samplingFreq m,
             xM := peakX m, yM := peakY m, zM := peakZ m,
             currentRecordTime := rtcTime m,
             maxV := [maxX m, maxY m, maxZ m],
             minV := [minX m, minY m, minZ m],
             meanV := [meanX m, meanY m, meanZ m],
             sdV := [sdX m, sdY m, sdZ m],
             accXvec := a1, accYvec := a2, accZvec := a3,
             vRealX := a4, vRealY := a5, vRealZ := a6 \<rparr>))
     \<lparr> currentViewRecord := i \<rparr>"

definition onlySpec :: "'f session \<Rightarrow> 'f session \<Rightarrow> bool" where
  \<comment> \<open>the second session differs from the first in the spectrogram globals at most\<close>
  "onlySpec s s' \<longleftrightarrow>
     (\<exists>a b c d. s' = s\<lparr> specMag := a, specSegments := b, specLogMin := c, specLogMax := d \<rparr>)"

definition sameHead :: "'f RecordMeta \<Rightarrow> 'f RecordMeta \<Rightarrow> bool" where
  \<comment> \<open>the fields of a header that the statistics do not write\<close>
  "sameHead m m' \<longleftrightarrow>
     timestamp m' = timestamp m \<and> rtcTime m' = rtcTime m \<and> samplingFreq m' = samplingFreq m \<and>
     peakX m' = peakX m \<and> peakY m' = peakY m \<and> peakZ m' = peakZ m"

text \<open>
  Captures that differ in their first array and in the second of their start time, the
  store after thirty of them, and two notions for the ring: a file that holds a given
  capture, and a ring that holds the last captures of a list in their slots.
\<close>

definition demoCapture :: "nat \<Rightarrow> capture" where
  "demoCapture k =
     \<lparr> c_time = zeroTime\<lparr> second := of_nat k \<rparr>, c_fs = 0,
       c_peakX = 0, c_peakY = 0, c_peakZ = 0,
       c_accX = replicate SAMPLES (of_nat k), c_accY = replicate SAMPLES 0,
       c_accZ = replicate SAMPLES 0, c_specX = replicate SAMPLES 0,
       c_specY = replicate SAMPLES 0, c_specZ = replicate SAMPLES 0 \<rparr>"

definition demoCaptures :: "nat \<Rightarrow> capture list" where
  "demoCaptures n = map demoCapture [0..<n]"

definition fullStore :: "float32 session" where
  "fullStore = acquireAll stub_fpu demoEnv (demoCaptures 30) bootSession"

definition holdsCapture :: "byte list \<Rightarrow> capture \<Rightarrow> bool" where
  "holdsCapture f c \<longleftrightarrow>
     (\<exists>p m. f = encodeMeta p m @ encodeFloats (c_accX c) @ encodeFloats (c_accY c) @
                 encodeFloats (c_accZ c) @ encodeFloats (c_specX c) @ encodeFloats (c_specY c) @
                 encodeFloats (c_specZ c) \<and>
            rtcTime m = c_time c \<and> samplingFreq m = c_fs c \<and>
            peakX m = c_peakX c \<and> peakY m = c_peakY c \<and> peakZ m = c_peakZ c)"

definition ringHolds :: "int \<Rightarrow> capture list \<Rightarrow> float32 session \<Rightarrow> bool" where
  "ringHolds o0 cs s \<longleftrightarrow>
     storageReady s \<and> ring_ok s \<and> (cs \<noteq> [] \<longrightarrow> buffers_ok s) \<and>
     storedRecordCount s = min (int (length cs)) MAX_RECORDS \<and>
     oldestRecordIndex s = (o0 + (int (length cs) - storedRecordCount s)) mod MAX_RECORDS \<and>
     (\<forall>j. int (length cs) - storedRecordCount s \<le> int j \<and> j < length cs \<longrightarrow>
          (\<exists>f. recFiles s ((o0 + int j) mod MAX_RECORDS) = Some f \<and> holdsCapture f (cs ! j)))"




text \<open>
  The loop of \<^verbatim>\<open>exportAllRecordsSerial\<close> over a list of indices. Time stamps as the
  sampling branch writes them (lines 1197--1205): \<^verbatim>\<open>SAMPLES\<close> values of \<^verbatim>\<open>micros() - t0\<close>,
  not decreasing, within the positive range of \<^verbatim>\<open>long\<close>; and the stamps of a capture with
  one sample every 5000 microseconds.
\<close>

definition exportLoop :: "float32 fpu \<Rightarrow> env \<Rightarrow> int list \<Rightarrow> float32 session \<Rightarrow> float32 session" where
  "exportLoop ops e rs s = fold (\<lambda>r st. snd (loadRecord ops e r st)) rs s"



text \<open>
  Two sessions with the same store: the same record files and the same cursor, whatever
  their live globals hold. Captures whose six arrays, sampling frequency, peaks and start
  time all differ from one capture to the next; a session with the first of them in the
  live globals; the session after it was saved and another capture arrived in the live
  globals; and a store of two records with a third capture in the live globals.
\<close>

definition sameStore :: "'f session \<Rightarrow> 'f session \<Rightarrow> bool" where
  "sameStore s t \<longleftrightarrow>
     storageReady t = storageReady s \<and> recFiles t = recFiles s \<and>
     storedRecordCount t = storedRecordCount s \<and> oldestRecordIndex t = oldestRecordIndex s"

definition probeCapture :: "nat \<Rightarrow> capture" where
  "probeCapture k =
     \<lparr> c_time = \<lparr> year = 2024, month = 5, day = 17, hour = 12, minute = 30, second = of_nat k \<rparr>,
       c_fs = of_nat (1000 + k),
       c_peakX = of_nat (2000 + k), c_peakY = of_nat (3000 + k), c_peakZ = of_nat (4000 + k),
       c_accX = map (\<lambda>i. of_nat (10000 * (6 * k + 1) + i)) [0..<SAMPLES],
       c_accY = map (\<lambda>i. of_nat (10000 * (6 * k + 2) + i)) [0..<SAMPLES],
       c_accZ = map (\<lambda>i. of_nat (10000 * (6 * k + 3) + i)) [0..<SAMPLES],
       c_specX = map (\<lambda>i. of_nat (10000 * (6 * k + 4) + i)) [0..<SAMPLES],
       c_specY = map (\<lambda>i. of_nat (10000 * (6 * k + 5) + i)) [0..<SAMPLES],
       c_specZ = map (\<lambda>i. of_nat (10000 * (6 * k + 6) + i)) [0..<SAMPLES] \<rparr>"

definition firstLive :: "float32 session" where
  "firstLive = liveCapture (probeCapture 2) bootSession"

definition otherLive :: "float32 session" where
  "otherLive = liveCapture (probeCapture 5) (snd (saveCurrentRecord stub_fpu demoEnv firstLive))"

definition twoRecordsLive :: "float32 session" where
  "twoRecordsLive =
     liveCapture (probeCapture 5)
       (acquireAll stub_fpu demoEnv [probeCapture 2, probeCapture 3] bootSession)"







section \<open>Properties\<close>

subsection \<open>Binary32: rounding and the operations on finite numbers\<close>

lemma pow2_powi: "pow2 e = 2 powi e"
  by (simp add: pow2_def power_int_def power_inverse [symmetric] inverse_eq_divide power_one_over)

lemma pow2_pos [simp]: "0 < pow2 e"
  by (simp add: pow2_def)

lemma pow2_nonzero [simp]: "pow2 e \<noteq> 0"
  by (simp add: pow2_def)

lemma pow2_add: "pow2 (a + b) = pow2 a * pow2 b"
  by (simp add: pow2_powi power_int_add)

lemma pow2_diff: "pow2 (a - b) = pow2 a / pow2 b"
  by (simp add: pow2_powi power_int_diff)

lemma pow2_mono: "a \<le> b \<Longrightarrow> pow2 a \<le> pow2 b"
  by (simp add: pow2_powi power_int_increasing)

lemma pow2_less_iff [simp]: "pow2 a < pow2 b \<longleftrightarrow> a < b"
  using pow2_mono [of b a] power_int_strict_increasing [of a b "2 :: rat"]
  by (auto simp: pow2_powi not_le [symmetric])

lemma pow2_nat: "0 \<le> e \<Longrightarrow> pow2 e = 2 ^ nat e"
  by (simp add: pow2_def)

lemma pow2_0 [simp]: "pow2 0 = 1"
  by (simp add: pow2_def)

lemma pow2_24: "pow2 24 = 2 ^ 24"
  by (simp add: pow2_def)

lemma pow2_23: "pow2 23 = 2 ^ 23"
  by (simp add: pow2_def)

lemma pow2_1: "pow2 1 = 2"
  by (simp add: pow2_def)

lemma pow2_m1: "pow2 (- 1) = 1 / 2"
  by (simp add: pow2_def)

lemma nbits_bounds:
  "0 < n \<Longrightarrow> 1 \<le> nbits n \<and> 2 ^ nat (nbits n - 1) \<le> n \<and> n < 2 ^ nat (nbits n)"
proof (induction n rule: nbits.induct)
  case (1 n)
  show ?case
  proof (cases "n = 1")
    case True
    then show ?thesis by (simp add: nbits.simps [of 1] nbits.simps [of 0])
  next
    case False
    with 1(2) have h: "0 < n div 2" by linarith
    with 1 have ih: "1 \<le> nbits (n div 2)" "2 ^ nat (nbits (n div 2) - 1) \<le> n div 2"
      "n div 2 < 2 ^ nat (nbits (n div 2))"
      by simp_all
    have nb: "nbits n = 1 + nbits (n div 2)"
      using 1(2) by (subst nbits.simps) simp
    have e: "nat (nbits n - 1) = Suc (nat (nbits (n div 2) - 1))" "nat (nbits n) = Suc (nat (nbits (n div 2)))"
      using ih(1) by (simp_all add: nb nat_add_distrib)
    have "2 * 2 ^ nat (nbits (n div 2) - 1) \<le> 2 * (n div 2)" using ih(2) by simp
    also have "\<dots> \<le> n" by linarith
    finally have lo: "2 ^ nat (nbits n - 1) \<le> n" by (simp add: e)
    have "n < 2 * (n div 2) + 2" by linarith
    also have "\<dots> \<le> 2 * 2 ^ nat (nbits (n div 2))" using ih(3) by simp
    finally have hi: "n < 2 ^ nat (nbits n)" by (simp add: e)
    from lo hi ih(1) nb show ?thesis by simp
  qed
qed

lemma nbits_pow2:
  assumes "0 < n"
  shows "pow2 (nbits n - 1) \<le> of_int n" "of_int n < pow2 (nbits n)"
proof -
  from nbits_bounds [OF assms] have b: "1 \<le> nbits n" "2 ^ nat (nbits n - 1) \<le> n" "n < 2 ^ nat (nbits n)"
    by simp_all
  have "pow2 (nbits n - 1) = of_int (2 ^ nat (nbits n - 1))"
    using b(1) by (simp add: pow2_nat)
  also have "\<dots> \<le> of_int n" using b(2) by (simp only: of_int_le_iff)
  finally show "pow2 (nbits n - 1) \<le> of_int n" .
  have "of_int n < (of_int (2 ^ nat (nbits n)) :: rat)" using b(3) by (simp only: of_int_less_iff)
  also have "\<dots> = pow2 (nbits n)" using b(1) by (simp add: pow2_nat)
  finally show "of_int n < pow2 (nbits n)" .
qed

lemma ilog2_bounds:
  assumes "0 < x"
  shows "pow2 (ilog2 x) \<le> x" "x < pow2 (ilog2 x + 1)"
proof -
  obtain n d where q: "quotient_of x = (n, d)" by (cases "quotient_of x")
  then have d: "0 < d" and x: "x = of_int n / of_int d"
    by (simp_all add: quotient_of_denom_pos quotient_of_div)
  from assms d x have n: "0 < n" by (simp add: zero_less_divide_iff)
  define k where "k = nbits n - nbits d"
  note bn = nbits_pow2 [OF n] and bd = nbits_pow2 [OF d]
  have dpos: "(0 :: rat) < of_int d" using d by simp
  have "x < pow2 (nbits n) / pow2 (nbits d - 1)"
    unfolding x using bn(2) bd(1) dpos n by (intro frac_less) simp_all
  then have hi: "x < pow2 (k + 1)" by (simp add: k_def pow2_diff [symmetric] algebra_simps)
  have "pow2 (nbits n - 1) / pow2 (nbits d) < x"
    unfolding x using bn(1) bd(2) dpos
    by (intro frac_less2) simp_all
  then have lo: "pow2 (k - 1) < x" by (simp add: k_def pow2_diff [symmetric] algebra_simps)
  have il: "ilog2 x = (if pow2 k \<le> x then k else k - 1)"
    by (simp add: ilog2_def q k_def Let_def)
  show "pow2 (ilog2 x) \<le> x" using lo by (simp add: il)
  show "x < pow2 (ilog2 x + 1)" using hi by (auto simp: il)
qed

lemma ilog2_less: "0 < x \<Longrightarrow> x < pow2 k \<Longrightarrow> ilog2 x < k"
  using ilog2_bounds(1) [of x] pow2_less_iff [of "ilog2 x" k] by linarith

lemma ilog2_ge: "pow2 k \<le> x \<Longrightarrow> k \<le> ilog2 x"
proof -
  assume a: "pow2 k \<le> x"
  then have "0 < x" using pow2_pos [of k] by linarith
  from ilog2_bounds(2) [OF this] a have "pow2 k < pow2 (ilog2 x + 1)" by linarith
  then show ?thesis by simp
qed

lemma rhe_error: "\<bar>of_int (rhe x) - x\<bar> \<le> 1 / 2"
proof -
  have "of_int \<lfloor>x\<rfloor> \<le> x" "x < of_int \<lfloor>x\<rfloor> + 1" by linarith+
  then show ?thesis
    by (auto simp: rhe_def Let_def abs_le_iff)
qed

lemma rhe_ge: "of_int m \<le> x \<Longrightarrow> m \<le> rhe x"
proof -
  assume "of_int m \<le> x"
  then have "m \<le> \<lfloor>x\<rfloor>" by (simp add: le_floor_iff)
  then show ?thesis by (auto simp: rhe_def Let_def)
qed

lemma rhe_le: "x \<le> of_int m \<Longrightarrow> rhe x \<le> m"
proof -
  assume a: "x \<le> of_int m"
  have f: "\<lfloor>x\<rfloor> \<le> m" using a by (simp add: floor_le_iff)
  show ?thesis
  proof (cases "x = of_int \<lfloor>x\<rfloor>")
    case True
    then have "x - of_int \<lfloor>x\<rfloor> = 0" by simp
    then have "rhe x = \<lfloor>x\<rfloor>" by (simp add: rhe_def Let_def)
    with f show ?thesis by simp
  next
    case False
    then have "of_int \<lfloor>x\<rfloor> < x" using of_int_floor_le [of x] by linarith
    with a have "of_int \<lfloor>x\<rfloor> < (of_int m :: rat)" by linarith
    then have "\<lfloor>x\<rfloor> < m" by (simp only: of_int_less_iff)
    then show ?thesis by (auto simp: rhe_def Let_def)
  qed
qed

lemma f_key_range: "0 \<le> f_key w" "f_key w < 2 ^ 31"
  by (simp_all add: f_key_def)

lemma uint_pack:
  assumes "0 \<le> k" "k < 2 ^ 31"
  shows "uint (f_pack sg k) = (if sg then 2 ^ 31 else 0) + k"
proof -
  have "uint (word_of_int x :: 32 word) = x mod 2 ^ 32" for x
    by (simp add: uint_word_of_int)
  then have "uint (f_pack sg k) = ((if sg then 2 ^ 31 else 0) + k) mod 2 ^ 32"
    unfolding f_pack_def .
  also have "\<dots> = (if sg then 2 ^ 31 else 0) + k"
    using assms by (cases sg) simp_all
  finally show ?thesis .
qed

lemma f_key_pack:
  assumes "0 \<le> k" "k < 2 ^ 31"
  shows "f_key (f_pack sg k) = k"
  using assms by (cases sg) (simp_all add: f_key_def uint_pack)

lemma f_neg_pack:
  assumes "0 \<le> k" "k < 2 ^ 31"
  shows "f_neg (f_pack sg k) = sg"
  using assms by (cases sg) (simp_all add: f_neg_def uint_pack)

lemma fin_not_special: "is_fin w \<Longrightarrow> \<not> is_nan w \<and> \<not> is_inf w"
  by (simp add: is_fin_def is_nan_def is_inf_def)

lemma is_fin_pack: "0 \<le> k \<Longrightarrow> k < inf_key \<Longrightarrow> is_fin (f_pack sg k)"
  by (simp add: is_fin_def f_key_pack inf_key_def)

lemma f_mag_nonneg: "0 \<le> f_mag w"
  using f_key_range [of w] by (simp add: f_mag_def Let_def pow2_pos less_imp_le)

lemma f_mag_zero_iff: "f_mag w = 0 \<longleftrightarrow> f_key w = 0"
proof (cases "f_key w < 2 ^ 23")
  case True
  then show ?thesis by (simp add: f_mag_def Let_def)
next
  case False
  have "0 < 2 ^ 23 + f_key w mod 2 ^ 23"
    using pos_mod_sign [of "2 ^ 23" "f_key w"] by simp
  then have "(of_int (2 ^ 23 + f_key w mod 2 ^ 23) :: rat) \<noteq> 0"
    by (simp only: of_int_eq_0_iff)
  then have "f_mag w \<noteq> 0"
    using False unfolding f_mag_def Let_def by (simp only: if_False mult_eq_0_iff pow2_nonzero) simp
  moreover have "f_key w \<noteq> 0" using False by simp
  ultimately show ?thesis by simp
qed

lemma f_val_zero_iff: "f_val w = 0 \<longleftrightarrow> f_key w = 0"
  by (simp add: f_val_def f_mag_zero_iff)

lemma f_val_pack:
  assumes "0 \<le> k" "k < 2 ^ 31"
  shows "f_val (f_pack sg k) = (if sg then - f_mag (f_pack False k) else f_mag (f_pack False k))"
  using assms by (simp add: f_val_def f_neg_pack f_mag_def f_key_pack)

lemma f_flip_facts:
  "f_key (f_flip w) = f_key w" "f_neg (f_flip w) = (\<not> f_neg w)"
  "is_fin (f_flip w) = is_fin w" "is_nan (f_flip w) = is_nan w" "is_inf (f_flip w) = is_inf w"
  "f_val (f_flip w) = - f_val w"
  using f_key_range [of w]
  by (simp_all add: f_flip_def f_key_pack f_neg_pack is_fin_def is_nan_def is_inf_def
      f_val_def f_mag_def)

lemma quantum_ge: "- 149 \<le> quantum a"
  by (simp add: quantum_def)

lemma divmod_key:
  fixes E m :: int
  assumes "0 \<le> m" "m < 2 ^ 23"
  shows "(E * 2 ^ 23 + m) div 2 ^ 23 = E" "(E * 2 ^ 23 + m) mod 2 ^ 23 = m"
  using assms by simp_all

lemma mag_of_key:
  fixes E m :: int
  assumes "0 \<le> E" "E \<le> 252" "0 \<le> m" "m \<le> 2 ^ 24" "0 < E \<longrightarrow> 2 ^ 23 \<le> m"
  shows "f_mag (f_pack sg (E * 2 ^ 23 + m)) = of_int m * pow2 (E - 149)"
proof -
  let ?k = "E * 2 ^ 23 + m"
  have r: "0 \<le> ?k" "?k < 2 ^ 31" using assms by simp_all
  have key: "f_key (f_pack sg ?k) = ?k" by (rule f_key_pack [OF r])
  consider (sub) "m < 2 ^ 23" | (norm) "2 ^ 23 \<le> m" "m < 2 ^ 24" | (carry) "m = 2 ^ 24"
    using assms(4) by linarith
  then show ?thesis
  proof cases
    case sub
    with assms(5) assms(1) have E: "E = 0" by linarith
    from key have "f_key (f_pack sg ?k) = m" by (simp add: E)
    with sub show ?thesis by (simp add: f_mag_def Let_def E)
  next
    case norm
    define r where "r = m - 2 ^ 23"
    have rr: "0 \<le> r" "r < 2 ^ 23" using norm by (simp_all add: r_def)
    have k: "?k = (E + 1) * 2 ^ 23 + r" by (simp add: r_def algebra_simps)
    have ge: "\<not> ?k < 2 ^ 23" using assms(1) norm by simp
    have "f_mag (f_pack sg ?k) = of_int (2 ^ 23 + ?k mod 2 ^ 23) * pow2 (?k div 2 ^ 23 - 150)"
      using ge by (simp only: f_mag_def key Let_def if_False)
    also have "?k div 2 ^ 23 = E + 1" unfolding k by (rule divmod_key [OF rr])
    also have "?k mod 2 ^ 23 = r" unfolding k by (rule divmod_key [OF rr])
    finally show ?thesis by (simp add: r_def)
  next
    case carry
    have k: "?k = (E + 2) * 2 ^ 23 + 0" by (simp add: carry algebra_simps)
    have ge: "\<not> ?k < 2 ^ 23" using assms(1) by (simp add: carry)
    have "f_mag (f_pack sg ?k) = of_int (2 ^ 23 + ?k mod 2 ^ 23) * pow2 (?k div 2 ^ 23 - 150)"
      using ge by (simp only: f_mag_def key Let_def if_False)
    also have "?k div 2 ^ 23 = E + 2" unfolding k by (rule divmod_key) simp_all
    also have "?k mod 2 ^ 23 = 0" unfolding k by (rule divmod_key) simp_all
    finally have "f_mag (f_pack sg ?k) = 2 ^ 23 * pow2 ((E - 149) + 1)"
      by (simp add: algebra_simps)
    also have "\<dots> = of_int m * pow2 (E - 149)"
      unfolding pow2_add by (simp add: carry pow2_1)
    finally show ?thesis .
  qed
qed

lemma round_key_facts:
  assumes "0 < a" "a < pow2 127"
  shows "0 \<le> round_key a" "round_key a < inf_key"
    "f_mag (f_pack sg (round_key a)) = rnd a"
proof -
  define q where "q = quantum a"
  define e where "e = q + 23"
  define m where "m = rhe (a / pow2 q)"
  have e: "e = max (ilog2 a) (- 126)" by (simp add: e_def q_def quantum_def)
  have il: "ilog2 a < 127" using assms by (rule ilog2_less)
  have eb: "- 126 \<le> e" "e \<le> 126" "ilog2 a \<le> e" using il by (simp_all add: e)
  have "a < pow2 (ilog2 a + 1)" using assms(1) by (rule ilog2_bounds)
  also have "\<dots> \<le> pow2 (e + 1)" using eb(3) by (intro pow2_mono) simp
  finally have "a / pow2 q < pow2 (e + 1) / pow2 q"
    by (simp add: divide_strict_right_mono)
  also have "\<dots> = pow2 ((e + 1) - q)" by (simp only: pow2_diff)
  also have "(e + 1) - q = 24" by (simp add: e_def)
  finally have "a / pow2 q < 2 ^ 24" by (simp only: pow2_24)
  then have up: "a / pow2 q \<le> of_int (2 ^ 24)" by simp
  have "0 \<le> a / pow2 q" using assms(1) by (simp add: less_imp_le)
  then have "of_int 0 \<le> a / pow2 q" by simp
  then have m0: "0 \<le> m" unfolding m_def by (rule rhe_ge)
  have m1: "m \<le> 2 ^ 24" unfolding m_def using up by (rule rhe_le)
  have m2: "2 ^ 23 \<le> m" if "0 < e + 126"
  proof -
    from that e have "e = ilog2 a" by simp
    with ilog2_bounds(1) [OF assms(1)] have "pow2 e \<le> a" by simp
    then have "pow2 e / pow2 q \<le> a / pow2 q" by (simp add: divide_right_mono less_imp_le)
    moreover have "pow2 e / pow2 q = pow2 (e - q)" by (simp only: pow2_diff)
    moreover have "e - q = 23" by (simp add: e_def)
    ultimately have "of_int (2 ^ 23) \<le> a / pow2 q" by (simp add: pow2_23)
    then show ?thesis unfolding m_def by (rule rhe_ge)
  qed
  have rk: "round_key a = min ((e + 126) * 2 ^ 23 + m) inf_key"
    using assms(1) by (simp add: round_key_def q_def [symmetric] m_def e_def)
  have "(e + 126) * 2 ^ 23 + m \<le> 252 * 2 ^ 23 + 2 ^ 24" using eb m1 by simp
  then have lt: "(e + 126) * 2 ^ 23 + m < inf_key" by (simp add: inf_key_def)
  then have rk2: "round_key a = (e + 126) * 2 ^ 23 + m" by (simp add: rk)
  show "0 \<le> round_key a" using eb m0 by (simp add: rk2)
  show "round_key a < inf_key" using lt by (simp add: rk2)
  have "f_mag (f_pack sg ((e + 126) * 2 ^ 23 + m)) = of_int m * pow2 ((e + 126) - 149)"
    using eb m0 m1 m2 by (intro mag_of_key) simp_all
  also have "(e + 126) - 149 = q" by (simp add: e_def)
  finally show "f_mag (f_pack sg (round_key a)) = rnd a"
    using assms(1) by (simp add: rk2 rnd_def q_def m_def)
qed

lemma rnd_error: "0 < a \<Longrightarrow> \<bar>rnd a - a\<bar> \<le> pow2 (quantum a) / 2"
proof -
  assume a: "0 < a"
  define q where "q = quantum a"
  have "\<bar>rnd a - a\<bar> = \<bar>of_int (rhe (a / pow2 q)) - a / pow2 q\<bar> * pow2 q"
  proof -
    have "pow2 q \<noteq> 0" by simp
    then have "rnd a - a = (of_int (rhe (a / pow2 q)) - a / pow2 q) * pow2 q"
      using a by (simp add: rnd_def q_def [symmetric] left_diff_distrib)
    then show ?thesis
      by (simp add: abs_mult less_imp_le)
  qed
  also have "\<dots> \<le> (1 / 2) * pow2 q"
    by (intro mult_right_mono rhe_error) (simp add: less_imp_le)
  finally show ?thesis by (simp add: q_def)
qed

lemma rnd_error_rel:
  assumes "pow2 (- 126) \<le> a"
  shows "\<bar>rnd a - a\<bar> \<le> a / 2 ^ 24"
proof -
  have a: "0 < a" using assms pow2_pos [of "- 126"] by linarith
  have "- 126 \<le> ilog2 a" using assms by (rule ilog2_ge)
  then have q: "quantum a = ilog2 a - 23" by (simp add: quantum_def)
  have "\<bar>rnd a - a\<bar> \<le> pow2 (ilog2 a - 23) / 2" using rnd_error [OF a] by (simp add: q)
  also have "\<dots> = pow2 (ilog2 a) / 2 ^ 24" by (simp add: pow2_diff pow2_23)
  also have "\<dots> \<le> a / 2 ^ 24" using ilog2_bounds(1) [OF a] by (simp add: divide_right_mono)
  finally show ?thesis .
qed

lemma rnd_error_abs:
  assumes "0 < a" "a < pow2 k" "- 125 \<le> k"
  shows "\<bar>rnd a - a\<bar> \<le> pow2 (k - 25)"
proof -
  have "ilog2 a < k" using assms(1,2) by (rule ilog2_less)
  then have "quantum a \<le> k - 24" using assms(3) by (simp add: quantum_def)
  then have "pow2 (quantum a) \<le> pow2 (k - 24)" by (rule pow2_mono)
  then have "pow2 (quantum a) / 2 \<le> pow2 (k - 24) / 2" by simp
  also have "\<dots> = pow2 (k - 25)"
  proof -
    have "pow2 (k - 24) = pow2 ((k - 25) + 1)" by simp
    then show ?thesis unfolding pow2_add by (simp add: pow2_1)
  qed
  finally show ?thesis using rnd_error [OF assms(1)] by linarith
qed

lemma rnd_nonneg: "0 \<le> a \<Longrightarrow> 0 \<le> rnd a"
proof -
  assume a: "0 \<le> a"
  then have "of_int 0 \<le> a / pow2 (quantum a)" by (simp add: less_imp_le)
  then have "0 \<le> rhe (a / pow2 (quantum a))" by (rule rhe_ge)
  then show ?thesis by (simp add: rnd_def less_imp_le)
qed

lemma rnd_0 [simp]: "rnd 0 = 0"
  by (simp add: rnd_def)

lemma rndv_0 [simp]: "rndv 0 = 0"
  by (simp add: rndv_def)

lemma rndv_error_rel:
  assumes "pow2 (- 126) \<le> \<bar>x\<bar>"
  shows "\<bar>rndv x - x\<bar> \<le> \<bar>x\<bar> / 2 ^ 24"
proof (cases "x < 0")
  case True
  then have "pow2 (- 126) \<le> - x" using assms by simp
  from rnd_error_rel [OF this] True show ?thesis by (simp add: rndv_def abs_le_iff)
next
  case False
  then have "pow2 (- 126) \<le> x" using assms by simp
  from rnd_error_rel [OF this] False show ?thesis by (simp add: rndv_def abs_le_iff)
qed

lemma rndv_error_abs:
  assumes "\<bar>x\<bar> < pow2 k" "- 125 \<le> k"
  shows "\<bar>rndv x - x\<bar> \<le> pow2 (k - 25)"
proof -
  consider (neg) "x < 0" | (zero) "x = 0" | (pos) "0 < x" by linarith
  then show ?thesis
  proof cases
    case neg
    then have "0 < - x" "- x < pow2 k" using assms(1) by simp_all
    from rnd_error_abs [OF this assms(2)] neg show ?thesis by (simp add: rndv_def abs_le_iff)
  next
    case zero
    then show ?thesis by (simp add: less_imp_le)
  next
    case pos
    then have "0 < x" "x < pow2 k" using assms(1) by simp_all
    from rnd_error_abs [OF this assms(2)] pos show ?thesis by (simp add: rndv_def abs_le_iff)
  qed
qed

lemma rndv_sign: "0 \<le> x \<Longrightarrow> 0 \<le> rndv x" "x \<le> 0 \<Longrightarrow> rndv x \<le> 0"
  using rnd_nonneg [of x] rnd_nonneg [of "- x"] by (auto simp: rndv_def)

lemma pack_zero: "is_fin (f_pack sg 0)" "f_val (f_pack sg 0) = 0"
  by (simp_all add: is_fin_pack inf_key_def f_val_zero_iff f_key_pack)

lemma inf_key_less: "inf_key < 2 ^ 31"
  by (simp add: inf_key_def)

lemma pack_round:
  assumes "0 \<le> a" "a < pow2 127"
  shows "is_fin (f_pack sg (round_key a))"
    "f_val (f_pack sg (round_key a)) = (if sg then - rnd a else rnd a)"
proof -
  have "is_fin (f_pack sg (round_key a)) \<and>
      f_val (f_pack sg (round_key a)) = (if sg then - rnd a else rnd a)"
  proof (cases "a = 0")
    case True
    then show ?thesis using pack_zero [of sg] by (simp add: round_key_def)
  next
    case False
    with assms(1) have "0 < a" by simp
    note f = round_key_facts [OF this assms(2)]
    have k: "round_key a < 2 ^ 31" using f(2) inf_key_less by linarith
    show ?thesis
      using f(1,2) k f(3) [of False] by (simp add: is_fin_pack f_val_pack)
  qed
  then show "is_fin (f_pack sg (round_key a))"
    "f_val (f_pack sg (round_key a)) = (if sg then - rnd a else rnd a)"
    by simp_all
qed

lemma f_round_fin:
  assumes "\<bar>x\<bar> < pow2 127"
  shows "is_fin (f_round x)" "f_val (f_round x) = rndv x"
  using pack_round [of "\<bar>x\<bar>" "x < 0"] assms
  by (auto simp: f_round_def rndv_def)

lemma f_add_fin:
  assumes "is_fin a" "is_fin b" "\<bar>f_val a + f_val b\<bar> < pow2 127"
  shows "is_fin (f_add a b)" "f_val (f_add a b) = rndv (f_val a + f_val b)"
  using assms fin_not_special [of a] fin_not_special [of b] pack_zero f_round_fin [OF assms(3)]
  by (simp_all add: f_add_def Let_def)

lemma f_sub_fin:
  assumes "is_fin a" "is_fin b" "\<bar>f_val a - f_val b\<bar> < pow2 127"
  shows "is_fin (f_sub a b)" "f_val (f_sub a b) = rndv (f_val a - f_val b)"
  using f_add_fin [of a "f_flip b"] assms
  by (simp_all add: f_sub_def f_flip_facts)

lemma f_val_mag: "f_val w = (if f_neg w then - f_mag w else f_mag w)"
  by (simp add: f_val_def)

lemma f_div_fin:
  assumes "is_fin a" "is_fin b" "f_val b \<noteq> 0" "\<bar>f_val a / f_val b\<bar> < pow2 127"
  shows "is_fin (f_div a b)" "f_val (f_div a b) = rndv (f_val a / f_val b)"
proof -
  have kb: "f_key b \<noteq> 0" using assms(3) by (simp add: f_val_zero_iff)
  have mb: "0 < f_mag b" using f_mag_nonneg [of b] kb f_mag_zero_iff [of b] by linarith
  have ma: "0 \<le> f_mag a" by (rule f_mag_nonneg)
  define r where "r = f_mag a / f_mag b"
  have r0: "0 \<le> r" using ma mb by (simp add: r_def)
  have ab: "\<bar>f_val a / f_val b\<bar> = r"
    using ma mb by (simp add: f_val_mag r_def)
  have r1: "r < pow2 127" using assms(4) unfolding ab .
  have d: "f_div a b = f_pack (f_neg a \<noteq> f_neg b) (round_key r)"
    using assms(1,2) fin_not_special [of a] fin_not_special [of b] kb
    by (simp add: f_div_def Let_def r_def)
  note p = pack_round [OF r0 r1, of "f_neg a \<noteq> f_neg b"]
  show "is_fin (f_div a b)" using p(1) by (simp add: d)
  have q: "f_val a / f_val b = (if f_neg a \<noteq> f_neg b then - r else r)"
    by (simp add: f_val_mag r_def)
  show "f_val (f_div a b) = rndv (f_val a / f_val b)"
  proof (cases "r = 0")
    case True
    then show ?thesis using p(2) by (simp add: d q)
  next
    case False
    with r0 have "0 < r" by simp
    then show ?thesis using p(2) by (simp add: d q rndv_def)
  qed
qed

lemma f_mul_fin:
  assumes "is_fin a" "is_fin b" "\<bar>f_val a * f_val b\<bar> < pow2 127"
  shows "is_fin (f_mul a b)" "f_val (f_mul a b) = rndv (f_val a * f_val b)"
proof -
  define r where "r = f_mag a * f_mag b"
  have r0: "0 \<le> r" using f_mag_nonneg [of a] f_mag_nonneg [of b] by (simp add: r_def)
  have ab: "\<bar>f_val a * f_val b\<bar> = r"
    using f_mag_nonneg [of a] f_mag_nonneg [of b] by (simp add: f_val_mag r_def abs_mult)
  have r1: "r < pow2 127" using assms(3) unfolding ab .
  have d: "f_mul a b = f_pack (f_neg a \<noteq> f_neg b) (round_key r)"
    using assms(1,2) fin_not_special [of a] fin_not_special [of b]
    by (simp add: f_mul_def Let_def r_def)
  note p = pack_round [OF r0 r1, of "f_neg a \<noteq> f_neg b"]
  show "is_fin (f_mul a b)" using p(1) by (simp add: d)
  have q: "f_val a * f_val b = (if f_neg a \<noteq> f_neg b then - r else r)"
    by (simp add: f_val_mag r_def)
  show "f_val (f_mul a b) = rndv (f_val a * f_val b)"
  proof (cases "r = 0")
    case True
    then show ?thesis using p(2) by (simp add: d q)
  next
    case False
    with r0 have "0 < r" by simp
    then show ?thesis using p(2) by (simp add: d q rndv_def)
  qed
qed

lemma f_ofint_fin:
  assumes "\<bar>i\<bar> < 2 ^ 127"
  shows "is_fin (f_ofint i)" "f_val (f_ofint i) = rndv (of_int i)"
proof -
  have "\<bar>of_int i :: rat\<bar> = of_int \<bar>i\<bar>" by simp
  also have "\<dots> < of_int (2 ^ 127)" using assms by (simp only: of_int_less_iff)
  also have "\<dots> = pow2 127" by (simp add: pow2_def)
  finally have "\<bar>of_int i :: rat\<bar> < pow2 127" .
  from f_round_fin [OF this] show "is_fin (f_ofint i)" "f_val (f_ofint i) = rndv (of_int i)"
    by (simp_all add: f_ofint_def)
qed

lemma f_lt_fin: "is_fin a \<Longrightarrow> is_fin b \<Longrightarrow> f_lt a b \<longleftrightarrow> f_val a < f_val b"
  using fin_not_special [of a] fin_not_special [of b] by (simp add: f_lt_def)

lemma ieee_fpu_simps [simp]:
  "fadd (ieee_fpu lg fft) = f_add" "fsub (ieee_fpu lg fft) = f_sub"
  "fmul (ieee_fpu lg fft) = f_mul" "fdiv (ieee_fpu lg fft) = f_div"
  "flt (ieee_fpu lg fft) = f_lt" "fsqrt (ieee_fpu lg fft) = f_sqrt"
  "flog10 (ieee_fpu lg fft) = lg" "flit (ieee_fpu lg fft) = f_lit"
  "fofint (ieee_fpu lg fft) = f_ofint" "fftMagnitude (ieee_fpu lg fft) = fft"
  by (simp_all add: ieee_fpu_def)

subsection \<open>Bytes, files and the ring cursor\<close>

lemma crem_nonneg: "0 \<le> a \<Longrightarrow> 0 < b \<Longrightarrow> crem a b = a mod b"
  by (cases "a = 0") (simp_all add: crem_def cdiv_def minus_div_mult_eq_mod)

lemma decodeU32_bytes:
  "decodeU32 [ucast w, ucast (drop_bit 8 w), ucast (drop_bit 16 w), ucast (drop_bit 24 w)] = (w :: 32 word)"
  unfolding decodeU32_def
  apply (rule bit_word_eqI)
  apply (auto simp add: bit_simps)
  subgoal for n by (cases "24 \<le> n") auto
  done

lemma decodeU16_bytes:
  "decodeU16 [ucast w, ucast (drop_bit 8 w)] = (w :: 16 word)"
  unfolding decodeU16_def
  apply (rule bit_word_eqI)
  apply (auto simp add: bit_simps)
  done

lemma length_encodeU32 [simp]: "length (encodeU32 w) = 4"
  by (simp add: encodeU32_def)

lemma length_encodeFloats [simp]: "length (encodeFloats xs) = 4 * length xs"
  by (induction xs) (simp_all add: encodeFloats_def)

lemma encodeFloats_Cons: "encodeFloats (x # xs) = encodeU32 x @ encodeFloats xs"
  by (simp add: encodeFloats_def)

lemma decodeFloats_encodeFloats [simp]: "decodeFloats (encodeFloats xs) = xs"
  by (induction xs) (simp_all add: encodeFloats_def encodeU32_def decodeU32_bytes)

lemma length_encodeDateTime [simp]: "length (encodeDateTime p d) = 8"
  by (simp add: encodeDateTime_def encodeU16_def)

lemma length_encodeMeta [simp]: "length (encodeMeta p m) = 76"
  by (simp add: encodeMeta_def)

lemma decodeDateTime_encodeDateTime [simp]: "decodeDateTime (encodeDateTime p d) = d"
  by (simp add: decodeDateTime_def encodeDateTime_def encodeU16_def decodeU16_bytes)

lemma decodeMeta_encodeMeta [simp]: "decodeMeta (encodeMeta p m) = m"
  by (simp add: decodeMeta_def encodeMeta_def floatAt_def encodeFloats_def encodeU32_def
      decodeU32_bytes encodeDateTime_def [symmetric])

lemma fileRead_exact:
  "length a = n \<Longrightarrow> length mem = n \<Longrightarrow> fileRead n (a @ rest) mem = (a, rest)"
  by (simp add: fileRead_def)

lemma fileRead_all:
  "length a = n \<Longrightarrow> length mem = n \<Longrightarrow> fileRead n a mem = (a, [])"
  by (simp add: fileRead_def)

lemma loadRecord_of_bytes:
  assumes "storageReady s" "0 \<le> i" "i < storedRecordCount s"
    and "recFiles s (crem (oldestRecordIndex s + i) MAX_RECORDS) =
           Some (encodeMeta p m @ encodeFloats a1 @ encodeFloats a2 @ encodeFloats a3 @
                 encodeFloats a4 @ encodeFloats a5 @ encodeFloats a6)"
    and "length a1 = SAMPLES" "length a2 = SAMPLES" "length a3 = SAMPLES"
        "length a4 = SAMPLES" "length a5 = SAMPLES" "length a6 = SAMPLES"
    and "buffers_ok s"
  shows "loadRecord ops e i s = (True, loadedFrom ops m a1 a2 a3 a4 a5 a6 i s)"
  using assms
  by (simp add: loadRecord_def loadedFrom_def buffers_ok_def fileRead_exact fileRead_all
      sizeof_RecordMeta_def sizeof_float_def)

lemma recordBytes_image:
  "buffers_ok s \<Longrightarrow> recordBytes e m s = recordImage (padByte e) m s"
  by (simp add: recordBytes_def recordImage_def buffers_ok_def sizeof_RecordMeta_def sizeof_float_def)

lemma saveStats_cong:
  assumes "accXvec s' = accXvec s" "accYvec s' = accYvec s" "accZvec s' = accZvec s"
  shows "saveStats ops s' = saveStats ops s"
proof -
  have "saveStatsStep ops s' = saveStatsStep ops s"
    using assms by (simp add: fun_eq_iff saveStatsStep_def)
  moreover have "saveSdStep ops s' = saveSdStep ops s"
    using assms by (simp add: fun_eq_iff saveSdStep_def)
  ultimately have "\<And>m. saveStats ops s' m = saveStats ops s m"
    by (simp add: saveStats_def)
  then show ?thesis by (rule ext)
qed

lemma buildMeta_cong:
  assumes "accXvec s' = accXvec s" "accYvec s' = accYvec s" "accZvec s' = accZvec s"
    "currentRecordTime s' = currentRecordTime s" "samplingFrequency s' = samplingFrequency s"
    "xM s' = xM s" "yM s' = yM s" "zM s' = zM s"
  shows "buildMeta ops e s' = buildMeta ops e s"
  using assms saveStats_cong [of s' s ops] by (simp add: buildMeta_def)

lemma recordImage_cong:
  assumes "accXvec s' = accXvec s" "accYvec s' = accYvec s" "accZvec s' = accZvec s"
    "vRealX s' = vRealX s" "vRealY s' = vRealY s" "vRealZ s' = vRealZ s"
  shows "recordImage p m s' = recordImage p m s"
  using assms by (simp add: recordImage_def)

lemma save_not_ready: "\<not> storageReady s \<Longrightarrow> saveCurrentRecord ops e s = (False, s)"
  by (simp add: saveCurrentRecord_def)

lemma save_open_fails:
  "storageReady s \<Longrightarrow> \<not> openRecOk e \<Longrightarrow> saveCurrentRecord ops e s = (False, advanceRing s)"
  by (simp add: saveCurrentRecord_def advanceRing_def Let_def)

lemma advanceRing_frame [simp]:
  "accXvec (advanceRing s) = accXvec s" "accYvec (advanceRing s) = accYvec s"
  "accZvec (advanceRing s) = accZvec s" "vRealX (advanceRing s) = vRealX s"
  "vRealY (advanceRing s) = vRealY s" "vRealZ (advanceRing s) = vRealZ s"
  "currentRecordTime (advanceRing s) = currentRecordTime s"
  "samplingFrequency (advanceRing s) = samplingFrequency s"
  "xM (advanceRing s) = xM s" "yM (advanceRing s) = yM s" "zM (advanceRing s) = zM s"
  "currentViewRecord (advanceRing s) = currentViewRecord s"
  "storageReady (advanceRing s) = storageReady s"
  "recFiles (advanceRing s) = recFiles s" "metaFile (advanceRing s) = metaFile s"
  by (simp_all add: advanceRing_def Let_def)

lemma buffers_ok_advanceRing [simp]: "buffers_ok (advanceRing s) = buffers_ok s"
  by (simp add: buffers_ok_def)

lemma save_succeeds:
  assumes "storageReady s" "openRecOk e" "buffers_ok s"
  shows "saveCurrentRecord ops e s = (True, savedSession ops e s)"
proof -
  have unf: "saveCurrentRecord ops e s =
      (let s2 = advanceRing s; meta = buildMeta ops e s2;
           s3 = s2\<lparr> maxV := [maxX meta, maxY meta, maxZ meta],
                     minV := [minX meta, minY meta, minZ meta],
                     meanV := [meanX meta, meanY meta, meanZ meta],
                     sdV := [sdX meta, sdY meta, sdZ meta] \<rparr>;
           s4 = s3\<lparr> recFiles := (recFiles s3)(newestRecordIndex s3 \<mapsto> recordBytes e meta s3) \<rparr>
       in (True, saveStorageMetadata e s4))"
    using assms(1,2) unfolding saveCurrentRecord_def advanceRing_def Let_def by simp
  have bm: "buildMeta ops e (advanceRing s) = buildMeta ops e s"
    by (rule buildMeta_cong) simp_all
  have rb: "recordBytes e m ((advanceRing s)\<lparr>maxV := a, minV := b, meanV := c, sdV := d\<rparr>)
      = recordImage (padByte e) m s" for m a b c d
  proof -
    have "buffers_ok ((advanceRing s)\<lparr>maxV := a, minV := b, meanV := c, sdV := d\<rparr>)"
      using assms(3) by (simp add: buffers_ok_def)
    then have "recordBytes e m ((advanceRing s)\<lparr>maxV := a, minV := b, meanV := c, sdV := d\<rparr>)
        = recordImage (padByte e) m ((advanceRing s)\<lparr>maxV := a, minV := b, meanV := c, sdV := d\<rparr>)"
      by (rule recordBytes_image)
    also have "\<dots> = recordImage (padByte e) m s"
      by (rule recordImage_cong) simp_all
    finally show ?thesis .
  qed
  show ?thesis
    unfolding unf savedSession_def Let_def bm rb by simp
qed

lemma savedSession_fields:
  "storedRecordCount (savedSession ops e s) = storedRecordCount (advanceRing s)"
  "oldestRecordIndex (savedSession ops e s) = oldestRecordIndex (advanceRing s)"
  "newestRecordIndex (savedSession ops e s) = newestRecordIndex (advanceRing s)"
  "recFiles (savedSession ops e s) = (recFiles s)(newestRecordIndex (advanceRing s) \<mapsto>
           recordImage (padByte e) (buildMeta ops e s) s)"
  "storageReady (savedSession ops e s) = storageReady s"
  "accXvec (savedSession ops e s) = accXvec s" "accYvec (savedSession ops e s) = accYvec s"
  "accZvec (savedSession ops e s) = accZvec s" "vRealX (savedSession ops e s) = vRealX s"
  "vRealY (savedSession ops e s) = vRealY s" "vRealZ (savedSession ops e s) = vRealZ s"
  "currentRecordTime (savedSession ops e s) = currentRecordTime s"
  "samplingFrequency (savedSession ops e s) = samplingFrequency s"
  "xM (savedSession ops e s) = xM s" "yM (savedSession ops e s) = yM s"
  "zM (savedSession ops e s) = zM s"
  "currentViewRecord (savedSession ops e s) = currentViewRecord s"
  "maxV (savedSession ops e s) = [maxX (buildMeta ops e s), maxY (buildMeta ops e s), maxZ (buildMeta ops e s)]"
  "minV (savedSession ops e s) = [minX (buildMeta ops e s), minY (buildMeta ops e s), minZ (buildMeta ops e s)]"
  "meanV (savedSession ops e s) = [meanX (buildMeta ops e s), meanY (buildMeta ops e s), meanZ (buildMeta ops e s)]"
  "sdV (savedSession ops e s) = [sdX (buildMeta ops e s), sdY (buildMeta ops e s), sdZ (buildMeta ops e s)]"
  "metaFile (savedSession ops e s) = (if openMetaOk e
           then Some (encodeInt (storedRecordCount (advanceRing s)) @
                      encodeInt (oldestRecordIndex (advanceRing s)) @
                      encodeInt (newestRecordIndex (advanceRing s)))
           else metaFile s)"
  by (simp_all add: savedSession_def saveStorageMetadata_def Let_def)

lemma onlySpecI:
  "s' = s\<lparr> specMag := a, specSegments := b, specLogMin := c, specLogMax := d \<rparr> \<Longrightarrow> onlySpec s s'"
  unfolding onlySpec_def by blast

lemma onlySpec_refl [simp]: "onlySpec s s"
  by (rule onlySpecI [where a = "specMag s" and b = "specSegments s" and c = "specLogMin s"
        and d = "specLogMax s"]) simp

lemma onlySpec_trans: "onlySpec s s' \<Longrightarrow> onlySpec s' s'' \<Longrightarrow> onlySpec s s''"
proof -
  assume "onlySpec s s'" "onlySpec s' s''"
  then obtain a b c d a' b' c' d' where
    "s' = s\<lparr> specMag := a, specSegments := b, specLogMin := c, specLogMax := d \<rparr>"
    "s'' = s'\<lparr> specMag := a', specSegments := b', specLogMin := c', specLogMax := d' \<rparr>"
    unfolding onlySpec_def by blast
  then have "s'' = s\<lparr> specMag := a', specSegments := b', specLogMin := c', specLogMax := d' \<rparr>"
    by simp
  then show ?thesis by (rule onlySpecI)
qed

lemma onlySpec_upd0:
  "onlySpec s (s\<lparr>specMag := a\<rparr>)" "onlySpec s (s\<lparr>specSegments := b\<rparr>)"
  "onlySpec s (s\<lparr>specLogMin := c\<rparr>)" "onlySpec s (s\<lparr>specLogMax := d\<rparr>)"
  by (rule onlySpecI [where a = a and b = "specSegments s" and c = "specLogMin s" and d = "specLogMax s"], simp)
     (rule onlySpecI [where a = "specMag s" and b = b and c = "specLogMin s" and d = "specLogMax s"], simp,
      rule onlySpecI [where a = "specMag s" and b = "specSegments s" and c = c and d = "specLogMax s"], simp,
      rule onlySpecI [where a = "specMag s" and b = "specSegments s" and c = "specLogMin s" and d = d], simp)

lemma onlySpec_upd [simp]:
  "onlySpec s s' \<Longrightarrow> onlySpec s (s'\<lparr>specMag := a\<rparr>)"
  "onlySpec s s' \<Longrightarrow> onlySpec s (s'\<lparr>specSegments := b\<rparr>)"
  "onlySpec s s' \<Longrightarrow> onlySpec s (s'\<lparr>specLogMin := c\<rparr>)"
  "onlySpec s s' \<Longrightarrow> onlySpec s (s'\<lparr>specLogMax := d\<rparr>)"
  by (erule onlySpec_trans, rule onlySpec_upd0)+

lemma onlySpec_fields:
  assumes "onlySpec s s'"
  shows "storedRecordCount s' = storedRecordCount s" "currentViewRecord s' = currentViewRecord s"
    "oldestRecordIndex s' = oldestRecordIndex s" "newestRecordIndex s' = newestRecordIndex s"
    "storageReady s' = storageReady s" "currentRecordTime s' = currentRecordTime s"
    "accXvec s' = accXvec s" "accYvec s' = accYvec s" "accZvec s' = accZvec s"
    "vRealX s' = vRealX s" "vRealY s' = vRealY s" "vRealZ s' = vRealZ s"
    "samplingFrequency s' = samplingFrequency s" "xM s' = xM s" "yM s' = yM s" "zM s' = zM s"
    "maxV s' = maxV s" "meanV s' = meanV s" "sdV s' = sdV s" "minV s' = minV s"
    "recFiles s' = recFiles s" "metaFile s' = metaFile s"
proof -
  from assms obtain a b c d where
    *: "s' = s\<lparr> specMag := a, specSegments := b, specLogMin := c, specLogMax := d \<rparr>"
    unfolding onlySpec_def by blast
  show "storedRecordCount s' = storedRecordCount s" "currentViewRecord s' = currentViewRecord s"
    "oldestRecordIndex s' = oldestRecordIndex s" "newestRecordIndex s' = newestRecordIndex s"
    "storageReady s' = storageReady s" "currentRecordTime s' = currentRecordTime s"
    "accXvec s' = accXvec s" "accYvec s' = accYvec s" "accZvec s' = accZvec s"
    "vRealX s' = vRealX s" "vRealY s' = vRealY s" "vRealZ s' = vRealZ s"
    "samplingFrequency s' = samplingFrequency s" "xM s' = xM s" "yM s' = yM s" "zM s' = zM s"
    "maxV s' = maxV s" "meanV s' = meanV s" "sdV s' = sdV s" "minV s' = minV s"
    "recFiles s' = recFiles s" "metaFile s' = metaFile s"
    by (simp_all add: *)
qed

lemma onlySpec_specBin: "onlySpec s s' \<Longrightarrow> onlySpec s (specBin ops sr k s')"
  by (simp add: specBin_def Let_def)

lemma onlySpec_fold_specBin: "onlySpec s s' \<Longrightarrow> onlySpec s (fold (specBin ops sr) ks s')"
  by (induction ks arbitrary: s') (simp_all add: onlySpec_specBin)

lemma onlySpec_specSegment: "onlySpec s s' \<Longrightarrow> onlySpec s (specSegment ops start s')"
  by (simp add: specSegment_def Let_def onlySpec_fold_specBin)

lemma onlySpec_specLoop: "onlySpec s s' \<Longrightarrow> onlySpec s (specLoop ops start s')"
proof (induction ops start s' rule: specLoop.induct)
  case (1 ops start s')
  show ?case
  proof (cases "start + SEG_LEN \<le> SAMPLES \<and> specSegments s' < int SEG_MAX")
    case True
    then have "specLoop ops start s' = specLoop ops (start + hop) (specSegment ops start s')"
      by (subst specLoop.simps) simp
    with 1 True show ?thesis
      by (simp add: onlySpec_specSegment)
  next
    case False
    then have "specLoop ops start s' = s'"
      by (subst specLoop.simps) auto
    with 1 show ?thesis by simp
  qed
qed

lemma onlySpec_specFinish: "onlySpec s s' \<Longrightarrow> onlySpec s (specFinish ops s')"
  by (simp add: specFinish_def Let_def)

lemma onlySpec_compute: "onlySpec s (computeSpectrogramFromRecord ops s)"
  by (simp add: computeSpectrogramFromRecord_def onlySpec_specFinish onlySpec_specLoop)

lemmas compute_frame = onlySpec_fields [OF onlySpec_compute]

lemma ring_step_arith1:
  fixes n ol c :: int
  assumes "(n + 1) mod 30 = (ol + c) mod 30"
  shows "((n + 1) mod 30 + 1) mod 30 = (ol + (c + 1)) mod 30"
proof -
  have "((n + 1) mod 30 + 1) mod 30 = ((ol + c) mod 30 + 1) mod 30"
    using assms by simp
  also have "\<dots> = (ol + c + 1) mod 30"
    by (simp add: mod_simps)
  finally show ?thesis by (simp add: add.assoc)
qed

lemma ring_step_arith2:
  fixes n ol c :: int
  assumes "(n + 1) mod 30 = (ol + c) mod 30" "c = 30"
  shows "((n + 1) mod 30 + 1) mod 30 = ((ol + 1) mod 30 + 30) mod 30"
proof -
  have "((n + 1) mod 30 + 1) mod 30 = ((ol + 30) mod 30 + 1) mod 30"
    using assms by simp
  also have "\<dots> = (ol + 1) mod 30"
    by (simp add: mod_simps)
  finally show ?thesis by (simp add: mod_simps)
qed

lemma ring_last_arith:
  fixes n ol c :: int
  assumes "(n + 1) mod 30 = (ol + c) mod 30" "0 \<le> n" "n < 30"
  shows "(ol + (c - 1)) mod 30 = n"
proof -
  have "(ol + (c - 1)) mod 30 = ((ol + c) mod 30 - 1) mod 30"
    by (simp add: mod_simps algebra_simps)
  also have "\<dots> = ((n + 1) mod 30 - 1) mod 30"
    using assms by simp
  also have "\<dots> = n mod 30"
    by (simp add: mod_simps)
  also have "\<dots> = n"
    using assms by simp
  finally show ?thesis .
qed

lemma advanceRing_ring:
  assumes "ring_ok s"
  shows "newestRecordIndex (advanceRing s) = (newestRecordIndex s + 1) mod MAX_RECORDS"
    and "storedRecordCount (advanceRing s) =
           (if storedRecordCount s < MAX_RECORDS then storedRecordCount s + 1 else MAX_RECORDS)"
    and "oldestRecordIndex (advanceRing s) =
           (if storedRecordCount s < MAX_RECORDS then oldestRecordIndex s
            else (oldestRecordIndex s + 1) mod MAX_RECORDS)"
proof -
  have n: "crem (newestRecordIndex s + 1) MAX_RECORDS = (newestRecordIndex s + 1) mod MAX_RECORDS"
    using assms by (intro crem_nonneg) (simp_all add: ring_ok_def MAX_RECORDS_def)
  have ol: "crem (oldestRecordIndex s + 1) MAX_RECORDS = (oldestRecordIndex s + 1) mod MAX_RECORDS"
    using assms by (intro crem_nonneg) (simp_all add: ring_ok_def MAX_RECORDS_def)
  show "newestRecordIndex (advanceRing s) = (newestRecordIndex s + 1) mod MAX_RECORDS"
    by (simp add: advanceRing_def Let_def n)
  show "storedRecordCount (advanceRing s) =
           (if storedRecordCount s < MAX_RECORDS then storedRecordCount s + 1 else MAX_RECORDS)"
    using assms by (simp add: advanceRing_def Let_def ring_ok_def)
  show "oldestRecordIndex (advanceRing s) =
           (if storedRecordCount s < MAX_RECORDS then oldestRecordIndex s
            else (oldestRecordIndex s + 1) mod MAX_RECORDS)"
    using assms by (simp add: advanceRing_def Let_def ring_ok_def ol)
qed

lemma ring_ok_advanceRing:
  assumes "ring_ok s"
  shows "ring_ok (advanceRing s)"
proof (cases "storedRecordCount s < MAX_RECORDS")
  case True
  with assms ring_step_arith1 [of "newestRecordIndex s" "oldestRecordIndex s" "storedRecordCount s"]
  show ?thesis
    unfolding ring_ok_def advanceRing_ring [OF assms]
    by (simp add: MAX_RECORDS_def)
next
  case False
  with assms have c: "storedRecordCount s = 30"
    by (simp add: ring_ok_def MAX_RECORDS_def)
  with assms ring_step_arith2 [of "newestRecordIndex s" "oldestRecordIndex s" "storedRecordCount s"]
  show ?thesis
    unfolding ring_ok_def advanceRing_ring [OF assms]
    by (simp add: MAX_RECORDS_def)
qed

lemma ring_newest_slot:
  assumes "ring_ok s" "0 < storedRecordCount s" "0 \<le> newestRecordIndex s"
  shows "crem (oldestRecordIndex s + (storedRecordCount s - 1)) MAX_RECORDS = newestRecordIndex s"
proof -
  have "crem (oldestRecordIndex s + (storedRecordCount s - 1)) MAX_RECORDS
      = (oldestRecordIndex s + (storedRecordCount s - 1)) mod MAX_RECORDS"
    using assms by (intro crem_nonneg) (auto simp: ring_ok_def MAX_RECORDS_def)
  also have "\<dots> = newestRecordIndex s"
    using assms ring_last_arith [of "newestRecordIndex s" "oldestRecordIndex s" "storedRecordCount s"]
    by (simp add: ring_ok_def MAX_RECORDS_def)
  finally show ?thesis .
qed

lemma boot_facts:
  "storageReady bootSession" "ring_ok bootSession" "buffers_ok bootSession"
  "storedRecordCount bootSession = 0" "newestRecordIndex bootSession = - 1"
  "oldestRecordIndex bootSession = 0"
  by (simp_all add: bootSession_def initSession_def ring_ok_def buffers_ok_def MAX_RECORDS_def)

lemma demoEnv_facts: "openRecOk demoEnv" "openMetaOk demoEnv"
  by (simp_all add: demoEnv_def)

lemma savedSession_ring_ok: "ring_ok s \<Longrightarrow> ring_ok (savedSession ops e s)"
  using ring_ok_advanceRing [of s]
  by (simp add: ring_ok_def savedSession_fields)

lemma savedSession_buffers_ok: "buffers_ok s \<Longrightarrow> buffers_ok (savedSession ops e s)"
  by (simp add: buffers_ok_def savedSession_fields)

lemma savedSession_newest_file:
  "recFiles (savedSession ops e s) (newestRecordIndex (savedSession ops e s)) =
     Some (recordImage (padByte e) (buildMeta ops e s) s)"
  by (simp add: savedSession_fields)

lemma savedSession_count_pos: "ring_ok s \<Longrightarrow> 0 < storedRecordCount (savedSession ops e s)"
  by (simp add: savedSession_fields advanceRing_ring ring_ok_def MAX_RECORDS_def)

lemma savedSession_newest_nonneg: "ring_ok s \<Longrightarrow> 0 \<le> newestRecordIndex (savedSession ops e s)"
  by (simp add: savedSession_fields advanceRing_ring ring_ok_def MAX_RECORDS_def)


lemma load_newest_sameStore:
  assumes "storageReady s" "ring_ok s" "buffers_ok s"
    and "sameStore (savedSession ops e s) t" "buffers_ok t"
  shows "loadRecord ops2 e2 (storedRecordCount t - 1) t =
     (True, loadedFrom ops2 (buildMeta ops e s) (accXvec s) (accYvec s) (accZvec s)
              (vRealX s) (vRealY s) (vRealZ s) (storedRecordCount t - 1) t)"
proof (rule loadRecord_of_bytes)
  let ?u = "savedSession ops e s"
  from assms(4) have eq: "storageReady t = storageReady ?u" "recFiles t = recFiles ?u"
    "storedRecordCount t = storedRecordCount ?u" "oldestRecordIndex t = oldestRecordIndex ?u"
    by (simp_all add: sameStore_def)
  show "storageReady t" using assms(1) by (simp add: eq savedSession_fields)
  show "0 \<le> storedRecordCount t - 1"
    using savedSession_count_pos [OF assms(2), of ops e] by (simp add: eq)
  show "storedRecordCount t - 1 < storedRecordCount t" by simp
  have "crem (oldestRecordIndex ?u + (storedRecordCount ?u - 1)) MAX_RECORDS = newestRecordIndex ?u"
    by (rule ring_newest_slot)
       (simp_all add: savedSession_ring_ok savedSession_count_pos savedSession_newest_nonneg assms)
  then show "recFiles t (crem (oldestRecordIndex t + (storedRecordCount t - 1)) MAX_RECORDS) =
      Some (encodeMeta (padByte e) (buildMeta ops e s) @ encodeFloats (accXvec s) @
            encodeFloats (accYvec s) @ encodeFloats (accZvec s) @ encodeFloats (vRealX s) @
            encodeFloats (vRealY s) @ encodeFloats (vRealZ s))"
    by (simp add: eq savedSession_newest_file recordImage_def)
  show "length (accXvec s) = SAMPLES" "length (accYvec s) = SAMPLES" "length (accZvec s) = SAMPLES"
    "length (vRealX s) = SAMPLES" "length (vRealY s) = SAMPLES" "length (vRealZ s) = SAMPLES"
    using assms(3) by (simp_all add: buffers_ok_def)
  show "buffers_ok t" by (rule assms(5))
qed

lemma loadedFrom_fields:
  "accXvec (loadedFrom ops m a1 a2 a3 a4 a5 a6 i s) = a1"
  "accYvec (loadedFrom ops m a1 a2 a3 a4 a5 a6 i s) = a2"
  "accZvec (loadedFrom ops m a1 a2 a3 a4 a5 a6 i s) = a3"
  "vRealX (loadedFrom ops m a1 a2 a3 a4 a5 a6 i s) = a4"
  "vRealY (loadedFrom ops m a1 a2 a3 a4 a5 a6 i s) = a5"
  "vRealZ (loadedFrom ops m a1 a2 a3 a4 a5 a6 i s) = a6"
  "currentRecordTime (loadedFrom ops m a1 a2 a3 a4 a5 a6 i s) = rtcTime m"
  "samplingFrequency (loadedFrom ops m a1 a2 a3 a4 a5 a6 i s) = samplingFreq m"
  "xM (loadedFrom ops m a1 a2 a3 a4 a5 a6 i s) = peakX m"
  "yM (loadedFrom ops m a1 a2 a3 a4 a5 a6 i s) = peakY m"
  "zM (loadedFrom ops m a1 a2 a3 a4 a5 a6 i s) = peakZ m"
  "maxV (loadedFrom ops m a1 a2 a3 a4 a5 a6 i s) = [maxX m, maxY m, maxZ m]"
  "minV (loadedFrom ops m a1 a2 a3 a4 a5 a6 i s) = [minX m, minY m, minZ m]"
  "meanV (loadedFrom ops m a1 a2 a3 a4 a5 a6 i s) = [meanX m, meanY m, meanZ m]"
  "sdV (loadedFrom ops m a1 a2 a3 a4 a5 a6 i s) = [sdX m, sdY m, sdZ m]"
  "currentViewRecord (loadedFrom ops m a1 a2 a3 a4 a5 a6 i s) = i"
  "storedRecordCount (loadedFrom ops m a1 a2 a3 a4 a5 a6 i s) = storedRecordCount s"
  "oldestRecordIndex (loadedFrom ops m a1 a2 a3 a4 a5 a6 i s) = oldestRecordIndex s"
  "newestRecordIndex (loadedFrom ops m a1 a2 a3 a4 a5 a6 i s) = newestRecordIndex s"
  "storageReady (loadedFrom ops m a1 a2 a3 a4 a5 a6 i s) = storageReady s"
  "recFiles (loadedFrom ops m a1 a2 a3 a4 a5 a6 i s) = recFiles s"
  "metaFile (loadedFrom ops m a1 a2 a3 a4 a5 a6 i s) = metaFile s"
  by (simp_all add: loadedFrom_def compute_frame)

lemma sameHead_fold_stats: "sameHead m (fold (saveStatsStep ops s) is m)"
  by (induction "is" arbitrary: m) (simp_all add: sameHead_def saveStatsStep_def)

lemma sameHead_fold_sd: "sameHead m (fold (saveSdStep ops s) is m)"
  by (induction "is" arbitrary: m) (simp_all add: sameHead_def saveSdStep_def)

lemma sameHead_saveStats: "sameHead m (saveStats ops s m)"
proof -
  define m1 where "m1 = m\<lparr> maxX := flit ops (- 9999) 0, maxY := flit ops (- 9999) 0,
                    maxZ := flit ops (- 9999) 0,
                    minX := flit ops 9999 0, minY := flit ops 9999 0, minZ := flit ops 9999 0,
                    meanX := flit ops 0 0, meanY := flit ops 0 0, meanZ := flit ops 0 0 \<rparr>"
  define m2 where "m2 = fold (saveStatsStep ops s) [0..<SAMPLES] m1"
  define m4 where "m4 = m2\<lparr> meanX := fdiv ops (meanX m2) (fofint ops (int SAMPLES)),
                    meanY := fdiv ops (meanY m2) (fofint ops (int SAMPLES)),
                    meanZ := fdiv ops (meanZ m2) (fofint ops (int SAMPLES)),
                    sdX := flit ops 0 0, sdY := flit ops 0 0, sdZ := flit ops 0 0 \<rparr>"
  define m5 where "m5 = fold (saveSdStep ops s) [0..<SAMPLES] m4"
  have 1: "sameHead m m1" by (simp add: m1_def sameHead_def)
  have 2: "sameHead m1 m2" unfolding m2_def by (rule sameHead_fold_stats)
  have 3: "sameHead m2 m4" by (simp add: m4_def sameHead_def)
  have 4: "sameHead m4 m5" unfolding m5_def by (rule sameHead_fold_sd)
  have "saveStats ops s m = m5\<lparr> sdX := fsqrt ops (fdiv ops (sdX m5) (fofint ops (int SAMPLES))),
              sdY := fsqrt ops (fdiv ops (sdY m5) (fofint ops (int SAMPLES))),
              sdZ := fsqrt ops (fdiv ops (sdZ m5) (fofint ops (int SAMPLES))) \<rparr>"
    by (simp add: saveStats_def Let_def m1_def m2_def m4_def m5_def)
  with 1 2 3 4 show ?thesis
    by (simp add: sameHead_def)
qed

lemma buildMeta_fields:
  "rtcTime (buildMeta ops e s) = currentRecordTime s"
  "samplingFreq (buildMeta ops e s) = samplingFrequency s"
  "peakX (buildMeta ops e s) = xM s" "peakY (buildMeta ops e s) = yM s"
  "peakZ (buildMeta ops e s) = zM s" "timestamp (buildMeta ops e s) = millisNow e"
  using sameHead_saveStats [of "(uninitMeta e)\<lparr> timestamp := millisNow e,
                         rtcTime := currentRecordTime s,
                         samplingFreq := samplingFrequency s,
                         peakX := xM s, peakY := yM s, peakZ := zM s \<rparr>" ops s]
  by (simp_all add: buildMeta_def sameHead_def)

subsection \<open>Saving and reading back\<close>

text \<open>
  Claim C5. A capture is saved by a successful \<^verbatim>\<open>saveCurrentRecord\<close> on a consistent
  ring. Afterwards the live globals may hold anything else (another capture, another
  record): in every session with the store that the save left, \<^verbatim>\<open>loadRecord(count - 1)\<close>
  succeeds and brings back, from the file, the start time, the measured sampling
  frequency, the three peak frequencies, the statistics that the save computed, the raw
  samples and the spectra exactly as they were saved.
\<close>

theorem C5_save_load_roundtrip:
  fixes ops ops2 :: "float32 fpu" and e e2 :: env and s t :: "float32 session"
  assumes "storageReady s" "openRecOk e" "ring_ok s" "buffers_ok s"
    and "sameStore (snd (saveCurrentRecord ops e s)) t" "buffers_ok t"
  defines "s1 \<equiv> snd (saveCurrentRecord ops e s)"
  defines "s2 \<equiv> snd (loadRecord ops2 e2 (storedRecordCount t - 1) t)"
  shows "fst (saveCurrentRecord ops e s) \<and>
         fst (loadRecord ops2 e2 (storedRecordCount t - 1) t) \<and>
         currentRecordTime s2 = currentRecordTime s \<and>
         samplingFrequency s2 = samplingFrequency s \<and>
         xM s2 = xM s \<and> yM s2 = yM s \<and> zM s2 = zM s \<and>
         maxV s2 = maxV s1 \<and> minV s2 = minV s1 \<and> meanV s2 = meanV s1 \<and> sdV s2 = sdV s1 \<and>
         accXvec s2 = accXvec s \<and> accYvec s2 = accYvec s \<and> accZvec s2 = accZvec s \<and>
         vRealX s2 = vRealX s \<and> vRealY s2 = vRealY s \<and> vRealZ s2 = vRealZ s"
proof -
  have sv: "saveCurrentRecord ops e s = (True, savedSession ops e s)"
    using assms(1,2,4) by (rule save_succeeds)
  then have s1: "s1 = savedSession ops e s"
    by (simp add: s1_def)
  have st: "sameStore (savedSession ops e s) t"
    using assms(5) by (simp add: sv)
  have ld: "loadRecord ops2 e2 (storedRecordCount t - 1) t =
     (True, loadedFrom ops2 (buildMeta ops e s) (accXvec s) (accYvec s) (accZvec s)
              (vRealX s) (vRealY s) (vRealZ s) (storedRecordCount t - 1) t)"
    using assms(1,3,4) st assms(6) by (rule load_newest_sameStore)
  show ?thesis
    unfolding s2_def ld unfolding sv s1
    by (simp add: loadedFrom_fields buildMeta_fields savedSession_fields s1)
qed

lemma oneRecord_eq: "oneRecordSession = savedSession stub_fpu demoEnv bootSession"
  by (simp add: oneRecordSession_def save_succeeds boot_facts demoEnv_facts)

lemma advanceRing_boot:
  "storedRecordCount (advanceRing bootSession) = 1"
  "newestRecordIndex (advanceRing bootSession) = 0"
  "oldestRecordIndex (advanceRing bootSession) = 0"
  by (simp_all add: advanceRing_ring boot_facts MAX_RECORDS_def)

lemma oneRecord_facts:
  "storageReady oneRecordSession" "storedRecordCount oneRecordSession = 1"
  "oldestRecordIndex oneRecordSession = 0" "newestRecordIndex oneRecordSession = 0"
  "recFiles oneRecordSession 0 =
     Some (recordImage (padByte demoEnv) (buildMeta stub_fpu demoEnv bootSession) bootSession)"
  "buffers_ok oneRecordSession" "ring_ok oneRecordSession"
  by (simp_all add: oneRecord_eq savedSession_fields advanceRing_boot boot_facts
      savedSession_buffers_ok savedSession_ring_ok)

lemma crem_0 [simp]: "crem 0 b = 0"
  by (simp add: crem_def cdiv_def)

lemma loadRecord_opens:
  "storageReady s \<Longrightarrow> 0 \<le> i \<Longrightarrow> i < storedRecordCount s \<Longrightarrow>
   recFiles s (crem (oldestRecordIndex s + i) MAX_RECORDS) = Some f \<Longrightarrow>
   fst (loadRecord ops e i s) \<and> currentViewRecord (snd (loadRecord ops e i s)) = i"
  by (simp add: loadRecord_def Let_def split_def)

lemma loadRecord_fail:
  "\<not> storageReady s \<or> i < 0 \<or> storedRecordCount s = 0 \<Longrightarrow> loadRecord ops e i s = (False, s)"
  by (auto simp: loadRecord_def)

lemma loadRecord_clamp:
  "storedRecordCount s \<le> i \<Longrightarrow> 0 < storedRecordCount s \<Longrightarrow>
   loadRecord ops e i s = loadRecord ops e (storedRecordCount s - 1) s"
  by (simp add: loadRecord_def)

subsection \<open>Reading by logical index\<close>

text \<open>
  Claim C1, as amended. \<^verbatim>\<open>loadRecord(i)\<close> fails, leaving the session as it was, when the
  storage is not ready, when \<open>i < 0\<close> or when the store is empty. For \<open>i \<ge> count > 0\<close> it
  does not fail: line 546 clamps the index to \<open>count - 1\<close>, so the call behaves exactly as
  \<^verbatim>\<open>loadRecord(count - 1)\<close> and, when the file of the newest record exists, returns true
  with the newest record as the current view.
\<close>

theorem C1_loadRecord_clamps_index:
  "(\<not> storageReady s \<or> i < 0 \<or> storedRecordCount s = 0 \<longrightarrow>
      loadRecord ops e i s = (False, s)) \<and>
   (storageReady s \<and> 0 < storedRecordCount s \<and> storedRecordCount s \<le> i \<longrightarrow>
      loadRecord ops e i s = loadRecord ops e (storedRecordCount s - 1) s \<and>
      (recFiles s (crem (oldestRecordIndex s + (storedRecordCount s - 1)) MAX_RECORDS) \<noteq> None \<longrightarrow>
         fst (loadRecord ops e i s) \<and>
         currentViewRecord (snd (loadRecord ops e i s)) = storedRecordCount s - 1))"
proof (intro conjI impI)
  assume "\<not> storageReady s \<or> i < 0 \<or> storedRecordCount s = 0"
  then show "loadRecord ops e i s = (False, s)" by (rule loadRecord_fail)
next
  assume a: "storageReady s \<and> 0 < storedRecordCount s \<and> storedRecordCount s \<le> i"
  then show c: "loadRecord ops e i s = loadRecord ops e (storedRecordCount s - 1) s"
    by (simp add: loadRecord_clamp)
  assume "recFiles s (crem (oldestRecordIndex s + (storedRecordCount s - 1)) MAX_RECORDS) \<noteq> None"
  then obtain f where
    "recFiles s (crem (oldestRecordIndex s + (storedRecordCount s - 1)) MAX_RECORDS) = Some f"
    by blast
  with a have "fst (loadRecord ops e (storedRecordCount s - 1) s) \<and>
      currentViewRecord (snd (loadRecord ops e (storedRecordCount s - 1) s)) = storedRecordCount s - 1"
    by (intro loadRecord_opens) simp_all
  then show "fst (loadRecord ops e i s)"
    "currentViewRecord (snd (loadRecord ops e i s)) = storedRecordCount s - 1"
    by (simp_all add: c)
qed

theorem C1_loadRecord_clamps_index_witness:
  "storedRecordCount bootSession = 0 \<and>
   loadRecord stub_fpu demoEnv 0 bootSession = (False, bootSession) \<and>
   storageReady oneRecordSession \<and> 0 < storedRecordCount oneRecordSession \<and>
   storedRecordCount oneRecordSession \<le> 5 \<and>
   recFiles oneRecordSession
     (crem (oldestRecordIndex oneRecordSession + (storedRecordCount oneRecordSession - 1)) MAX_RECORDS)
     \<noteq> None \<and>
   loadRecord stub_fpu demoEnv 5 oneRecordSession = loadRecord stub_fpu demoEnv 0 oneRecordSession \<and>
   fst (loadRecord stub_fpu demoEnv 5 oneRecordSession) \<and>
   currentViewRecord (snd (loadRecord stub_fpu demoEnv 5 oneRecordSession)) = 0"
  using C1_loadRecord_clamps_index [of bootSession 0 stub_fpu demoEnv]
    C1_loadRecord_clamps_index [of oneRecordSession 5 stub_fpu demoEnv]
  by (auto simp add: boot_facts oneRecord_facts)

text \<open>
  The claim as stated (failure for every \<open>i \<ge> count\<close>) is false in the store that holds
  one record: \<^verbatim>\<open>loadRecord(5)\<close> returns true.
\<close>

theorem C1_counterexample:
  "\<not> ((storedRecordCount oneRecordSession = 0 \<or> (5 :: int) < 0 \<or>
        storedRecordCount oneRecordSession \<le> 5) \<longrightarrow>
       \<not> fst (loadRecord stub_fpu demoEnv 5 oneRecordSession))"
proof -
  have "loadRecord stub_fpu demoEnv 5 oneRecordSession = loadRecord stub_fpu demoEnv 0 oneRecordSession"
    using loadRecord_clamp [of oneRecordSession 5 stub_fpu demoEnv] by (simp add: oneRecord_facts)
  moreover have "fst (loadRecord stub_fpu demoEnv 0 oneRecordSession)"
    using loadRecord_opens [of oneRecordSession 0 _ stub_fpu demoEnv]
    by (simp add: oneRecord_facts)
  ultimately show ?thesis
    by (simp add: oneRecord_facts)
qed

subsection \<open>Layout of a record file\<close>

text \<open>
  Claim C2, as amended. The file that a successful \<^verbatim>\<open>saveCurrentRecord\<close> writes is the
  76-byte header, then the raw capture as \<open>3 \<times> SAMPLES\<close> floats, then the spectra as
  \<open>3 \<times> SAMPLES\<close> floats (the whole magnitude arrays, not their first halves), and nothing
  else: no length or framing bytes.
\<close>

theorem C2_record_layout:
  fixes ops :: "float32 fpu" and e :: env and s :: "float32 session"
  assumes "storageReady s" "openRecOk e" "buffers_ok s"
  defines "s1 \<equiv> snd (saveCurrentRecord ops e s)"
  shows "recFiles s1 (newestRecordIndex s1) =
           Some (encodeMeta (padByte e) (buildMeta ops e s) @
                 encodeFloats (accXvec s) @ encodeFloats (accYvec s) @ encodeFloats (accZvec s) @
                 encodeFloats (vRealX s) @ encodeFloats (vRealY s) @ encodeFloats (vRealZ s)) \<and>
         length (encodeMeta (padByte e) (buildMeta ops e s)) = sizeof_RecordMeta \<and>
         length (encodeFloats (accXvec s) @ encodeFloats (accYvec s) @ encodeFloats (accZvec s))
           = 3 * SAMPLES * sizeof_float \<and>
         length (encodeFloats (vRealX s) @ encodeFloats (vRealY s) @ encodeFloats (vRealZ s))
           = 3 * SAMPLES * sizeof_float"
proof -
  have "s1 = savedSession ops e s"
    using assms(1-3) by (simp add: s1_def save_succeeds)
  then show ?thesis
    using assms(3)
    by (simp add: savedSession_newest_file recordImage_def buffers_ok_def
        sizeof_RecordMeta_def sizeof_float_def)
qed

theorem C2_record_layout_witness:
  "storageReady bootSession \<and> openRecOk demoEnv \<and> buffers_ok bootSession \<and>
   recFiles oneRecordSession (newestRecordIndex oneRecordSession) =
     Some (encodeMeta (padByte demoEnv) (buildMeta stub_fpu demoEnv bootSession) @
           encodeFloats (accXvec bootSession) @ encodeFloats (accYvec bootSession) @
           encodeFloats (accZvec bootSession) @ encodeFloats (vRealX bootSession) @
           encodeFloats (vRealY bootSession) @ encodeFloats (vRealZ bootSession))"
  using C2_record_layout [of bootSession demoEnv stub_fpu]
  by (simp add: boot_facts demoEnv_facts oneRecordSession_def)

text \<open>
  The claim as stated gives the spectra \<open>3 \<times> (SAMPLES div 2)\<close> floats, a file of 18508 bytes;
  the file of the first record has 24652 bytes.
\<close>

theorem C2_counterexample:
  "length (the (recFiles oneRecordSession (newestRecordIndex oneRecordSession))) \<noteq>
     sizeof_RecordMeta + 3 * SAMPLES * sizeof_float + 3 * (SAMPLES div 2) * sizeof_float \<and>
   length (the (recFiles oneRecordSession (newestRecordIndex oneRecordSession))) = 24652 \<and>
   length (drop (sizeof_RecordMeta + 3 * SAMPLES * sizeof_float)
             (the (recFiles oneRecordSession (newestRecordIndex oneRecordSession))))
     = 3 * SAMPLES * sizeof_float"
  using boot_facts(3)
  by (simp add: oneRecord_facts recordImage_def buffers_ok_def sizeof_RecordMeta_def
      sizeof_float_def SAMPLES_def)

subsection \<open>A save that cannot open its file\<close>

text \<open>
  Claim C3 at a failing input. The ring is empty and \<^verbatim>\<open>LittleFS.open\<close> fails for the
  record file. \<^verbatim>\<open>saveCurrentRecord\<close> returns false and writes neither file, but lines
  447--454 have already run: the cursor in memory is left at count 1 and newest slot 0.
\<close>

theorem C3_failed_open_advances_ring:
  "saveCurrentRecord stub_fpu (demoEnv\<lparr>openRecOk := False\<rparr>) bootSession =
     (False, bootSession\<lparr>newestRecordIndex := 0, storedRecordCount := 1\<rparr>)"
  by (simp add: saveCurrentRecord_def advanceRing_def Let_def bootSession_def initSession_def
      MAX_RECORDS_def crem_def cdiv_def)

lemma probeCapture_ok: "capture_ok (probeCapture k)"
  by (simp add: capture_ok_def probeCapture_def)

lemma firstLive_facts:
  "storageReady firstLive" "ring_ok firstLive" "buffers_ok firstLive"
  "storedRecordCount firstLive = 0"
  using boot_facts probeCapture_ok [of 2]
  by (simp_all add: firstLive_def liveCapture_def ring_ok_def buffers_ok_def capture_ok_def)

lemma otherLive_facts:
  "sameStore (snd (saveCurrentRecord stub_fpu demoEnv firstLive)) otherLive"
  "buffers_ok otherLive"
  using probeCapture_ok [of 5] savedSession_buffers_ok [OF firstLive_facts(3), of stub_fpu demoEnv]
  by (simp_all add: otherLive_def liveCapture_def sameStore_def buffers_ok_def capture_ok_def
      save_succeeds firstLive_facts demoEnv_facts)

theorem C5_save_load_roundtrip_witness:
  "storageReady firstLive \<and> openRecOk demoEnv \<and> ring_ok firstLive \<and> buffers_ok firstLive \<and>
   sameStore (snd (saveCurrentRecord stub_fpu demoEnv firstLive)) otherLive \<and>
   buffers_ok otherLive \<and>
   accXvec otherLive = c_accX (probeCapture 5) \<and>
   c_accX (probeCapture 5) \<noteq> c_accX (probeCapture 2) \<and>
   fst (loadRecord stub_fpu demoEnv (storedRecordCount otherLive - 1) otherLive) \<and>
   accXvec (snd (loadRecord stub_fpu demoEnv (storedRecordCount otherLive - 1) otherLive))
     = c_accX (probeCapture 2) \<and>
   vRealZ (snd (loadRecord stub_fpu demoEnv (storedRecordCount otherLive - 1) otherLive))
     = c_specZ (probeCapture 2) \<and>
   currentRecordTime (snd (loadRecord stub_fpu demoEnv (storedRecordCount otherLive - 1) otherLive))
     = c_time (probeCapture 2) \<and>
   samplingFrequency (snd (loadRecord stub_fpu demoEnv (storedRecordCount otherLive - 1) otherLive))
     = 1002"
proof -
  have ne: "c_accX (probeCapture 5) \<noteq> c_accX (probeCapture 2)"
  proof
    assume "c_accX (probeCapture 5) = c_accX (probeCapture 2)"
    then have "c_accX (probeCapture 5) ! 0 = c_accX (probeCapture 2) ! 0" by simp
    then show False by (simp add: probeCapture_def SAMPLES_def)
  qed
  have lv: "accXvec otherLive = c_accX (probeCapture 5)"
    by (simp add: otherLive_def liveCapture_def)
  have fl: "accXvec firstLive = c_accX (probeCapture 2)" "vRealZ firstLive = c_specZ (probeCapture 2)"
    "currentRecordTime firstLive = c_time (probeCapture 2)" "samplingFrequency firstLive = 1002"
    by (simp_all add: firstLive_def liveCapture_def probeCapture_def)
  from C5_save_load_roundtrip [OF firstLive_facts(1) demoEnv_facts(1) firstLive_facts(2,3) otherLive_facts,
      of stub_fpu demoEnv]
  show ?thesis
    using ne lv by (simp add: firstLive_facts demoEnv_facts otherLive_facts fl)
qed

lemma advanceRing_cong_cursor:
  assumes "storedRecordCount s' = storedRecordCount s" "oldestRecordIndex s' = oldestRecordIndex s"
    "newestRecordIndex s' = newestRecordIndex s"
  shows "storedRecordCount (advanceRing s') = storedRecordCount (advanceRing s)"
    "oldestRecordIndex (advanceRing s') = oldestRecordIndex (advanceRing s)"
    "newestRecordIndex (advanceRing s') = newestRecordIndex (advanceRing s)"
  using assms by (simp_all add: advanceRing_def Let_def)

lemma finishAcquisition_result:
  fixes ops :: "float32 fpu" and e :: env and c :: capture and s :: "float32 session"
  assumes "storageReady s" "openRecOk e" "capture_ok c"
  defines "r \<equiv> finishAcquisition ops e c s"
  shows "storageReady r" "buffers_ok r"
    "storedRecordCount r = storedRecordCount (advanceRing s)"
    "oldestRecordIndex r = oldestRecordIndex (advanceRing s)"
    "newestRecordIndex r = newestRecordIndex (advanceRing s)"
    "\<exists>f. holdsCapture f c \<and> recFiles r = (recFiles s)(newestRecordIndex (advanceRing s) \<mapsto> f)"
    "currentViewRecord r = - 1"
proof -
  define s2 where "s2 = computeSpectrogramFromRecord ops (liveCapture c s)"
  have fr: "onlySpec (liveCapture c s) s2"
    unfolding s2_def by (rule onlySpec_compute)
  note f2 = onlySpec_fields [OF fr]
  have ready: "storageReady s2" using assms(1) by (simp add: f2 liveCapture_def)
  have bok: "buffers_ok s2"
    using assms(3) by (simp add: buffers_ok_def capture_ok_def f2 liveCapture_def)
  have r: "r = (savedSession ops e s2)\<lparr> currentViewRecord := - 1 \<rparr>"
    unfolding r_def finishAcquisition_def
    using ready save_succeeds [OF ready assms(2) bok, of ops]
    by (simp add: Let_def s2_def liveCapture_def)
  have cur: "storedRecordCount s2 = storedRecordCount s" "oldestRecordIndex s2 = oldestRecordIndex s"
    "newestRecordIndex s2 = newestRecordIndex s"
    by (simp_all add: f2 liveCapture_def)
  note adv = advanceRing_cong_cursor [OF cur]
  show "storageReady r" using ready by (simp add: r savedSession_fields)
  show "buffers_ok r" using savedSession_buffers_ok [OF bok, of ops e]
    by (simp add: r buffers_ok_def)
  show "storedRecordCount r = storedRecordCount (advanceRing s)"
    "oldestRecordIndex r = oldestRecordIndex (advanceRing s)"
    "newestRecordIndex r = newestRecordIndex (advanceRing s)"
    by (simp_all add: r savedSession_fields adv)
  show "currentViewRecord r = - 1" by (simp add: r)
  have "holdsCapture (recordImage (padByte e) (buildMeta ops e s2) s2) c"
    unfolding holdsCapture_def recordImage_def
    by (intro exI [of _ "padByte e"] exI [of _ "buildMeta ops e s2"])
       (simp add: f2 liveCapture_def buildMeta_fields)
  moreover have "recFiles r = (recFiles s)(newestRecordIndex (advanceRing s) \<mapsto>
      recordImage (padByte e) (buildMeta ops e s2) s2)"
    by (simp add: r savedSession_fields adv f2 liveCapture_def)
  ultimately show "\<exists>f. holdsCapture f c \<and>
      recFiles r = (recFiles s)(newestRecordIndex (advanceRing s) \<mapsto> f)"
    by blast
qed

lemma mod30_distinct:
  fixes a d :: int
  assumes "0 < d" "d < 30"
  shows "(a + d) mod 30 \<noteq> a mod 30"
proof
  assume "(a + d) mod 30 = a mod 30"
  then have "30 dvd (a + d) - a"
    by (simp only: mod_eq_dvd_iff)
  then have "(30::int) dvd d" by simp
  with assms(1) have "30 \<le> d" by (simp add: zdvd_imp_le)
  with assms(2) show False by simp
qed

lemma ring_ok_cursor_cong:
  assumes "storedRecordCount s' = storedRecordCount s" "oldestRecordIndex s' = oldestRecordIndex s"
    "newestRecordIndex s' = newestRecordIndex s"
  shows "ring_ok s' = ring_ok s"
  using assms by (simp add: ring_ok_def)

lemma ringHolds_empty:
  "storageReady s \<Longrightarrow> ring_ok s \<Longrightarrow> storedRecordCount s = 0 \<Longrightarrow>
   ringHolds (oldestRecordIndex s) [] s"
  by (simp add: ringHolds_def ring_ok_def MAX_RECORDS_def)

lemma ringHolds_step:
  fixes ops :: "float32 fpu"
  assumes inv: "ringHolds o0 cs s" and e: "openRecOk e" and c: "capture_ok c"
  shows "ringHolds o0 (cs @ [c]) (finishAcquisition ops e c s)"
proof -
  define r where "r = finishAcquisition ops e c s"
  define n where "n = int (length cs)"
  define k where "k = storedRecordCount s"
  from inv have ready: "storageReady s" and rok: "ring_ok s"
    and k: "k = min n 30"
    and ol: "oldestRecordIndex s = (o0 + (n - k)) mod 30"
    and files: "\<And>j. n - k \<le> int j \<Longrightarrow> j < length cs \<Longrightarrow>
          \<exists>f. recFiles s ((o0 + int j) mod 30) = Some f \<and> holdsCapture f (cs ! j)"
    by (simp_all add: ringHolds_def n_def k_def MAX_RECORDS_def)
  note res = finishAcquisition_result [OF ready e c, of ops, folded r_def]
  note adv = advanceRing_ring [OF rok, unfolded MAX_RECORDS_def, folded k_def]
  have cnt: "storedRecordCount r = min (n + 1) 30"
    using k by (simp add: res adv) 
  have new: "newestRecordIndex r = (o0 + n) mod 30"
  proof -
    have "newestRecordIndex r = (newestRecordIndex s + 1) mod 30"
      by (simp add: res adv)
    also have "\<dots> = (oldestRecordIndex s + k) mod 30"
      using rok by (simp add: ring_ok_def MAX_RECORDS_def k_def)
    also have "\<dots> = (o0 + (n - k) + k) mod 30"
      unfolding ol by (simp add: mod_simps)
    finally show ?thesis by simp
  qed
  have old: "oldestRecordIndex r = (o0 + (n + 1 - storedRecordCount r)) mod 30"
  proof (cases "k < 30")
    case True
    with k have "k = n" by simp
    with True show ?thesis
      by (simp add: res adv ol cnt)
  next
    case False
    with k have k30: "k = 30" and "30 \<le> n" by simp_all
    then have "oldestRecordIndex r = ((o0 + (n - 30)) mod 30 + 1) mod 30"
      by (simp add: res adv ol)
    also have "\<dots> = (o0 + (n - 30) + 1) mod 30"
      by (simp add: mod_simps)
    finally show ?thesis
      using \<open>30 \<le> n\<close> by (simp add: cnt algebra_simps)
  qed
  have rok': "ring_ok r"
    using ring_ok_advanceRing [OF rok]
    by (simp add: ring_ok_def res)
  from res(6) obtain f where f: "holdsCapture f c"
    and rf: "recFiles r = (recFiles s)(newestRecordIndex (advanceRing s) \<mapsto> f)"
    by blast
  have rf': "recFiles r = (recFiles s)((o0 + n) mod 30 \<mapsto> f)"
    using rf new by (simp add: res)
  have files': "\<exists>g. recFiles r ((o0 + int j) mod 30) = Some g \<and> holdsCapture g ((cs @ [c]) ! j)"
    if lo: "n + 1 - storedRecordCount r \<le> int j" and hi: "j < length (cs @ [c])" for j
  proof (cases "j = length cs")
    case True
    then show ?thesis
      using f by (simp add: rf' n_def)
  next
    case False
    with hi have jl: "j < length cs" by simp
    have kk: "storedRecordCount r \<le> k + 1" "storedRecordCount r \<le> 30"
      using k by (simp_all add: cnt)
    from lo kk have "n - k \<le> int j" by simp
    from files [OF this jl] obtain g where
      g: "recFiles s ((o0 + int j) mod 30) = Some g" "holdsCapture g (cs ! j)"
      by blast
    have "0 < n - int j" "n - int j < 30"
      using jl lo kk by (simp_all add: n_def)
    from mod30_distinct [OF this, of "o0 + int j"]
    have "(o0 + n) mod 30 \<noteq> (o0 + int j) mod 30"
      by (simp add: algebra_simps)
    with g jl show ?thesis
      by (simp add: rf' nth_append)
  qed
  show ?thesis
    unfolding ringHolds_def r_def [symmetric]
    using res(1,2) rok' cnt old files'
    by (simp add: MAX_RECORDS_def n_def add.commute)
qed

lemma ringHolds_acquireAll:
  fixes ops :: "float32 fpu"
  assumes "storageReady s" "ring_ok s" "storedRecordCount s = 0" "openRecOk e"
    "\<forall>c \<in> set cs. capture_ok c"
  shows "ringHolds (oldestRecordIndex s) cs (acquireAll ops e cs s)"
  using assms(5)
proof (induction cs rule: rev_induct)
  case Nil
  show ?case
    using assms(1-3) by (simp add: acquireAll_def ringHolds_empty)
next
  case (snoc c cs)
  then have "ringHolds (oldestRecordIndex s) cs (acquireAll ops e cs s)" "capture_ok c"
    by simp_all
  from ringHolds_step [OF this(1) assms(4) this(2), of ops]
  show ?case
    by (simp add: acquireAll_def)
qed

lemma fst_save: "fst (saveCurrentRecord ops e s) \<longleftrightarrow> storageReady s \<and> openRecOk e"
  by (simp add: saveCurrentRecord_def Let_def)

lemma save_cursor:
  assumes "storageReady s"
  shows "storedRecordCount (snd (saveCurrentRecord ops e s)) = storedRecordCount (advanceRing s)"
    "oldestRecordIndex (snd (saveCurrentRecord ops e s)) = oldestRecordIndex (advanceRing s)"
    "newestRecordIndex (snd (saveCurrentRecord ops e s)) = newestRecordIndex (advanceRing s)"
  using assms by (simp_all add: saveCurrentRecord_def Let_def saveStorageMetadata_def)

lemma loadRecord_holdsCapture:
  assumes "storageReady s" "0 \<le> i" "i < storedRecordCount s" "buffers_ok s" "capture_ok c"
    and "recFiles s (crem (oldestRecordIndex s + i) MAX_RECORDS) = Some f" "holdsCapture f c"
  shows "\<exists>m. loadRecord ops e i s =
           (True, loadedFrom ops m (c_accX c) (c_accY c) (c_accZ c)
                    (c_specX c) (c_specY c) (c_specZ c) i s) \<and>
         rtcTime m = c_time c \<and> samplingFreq m = c_fs c \<and>
         peakX m = c_peakX c \<and> peakY m = c_peakY c \<and> peakZ m = c_peakZ c"
proof -
  from assms(7) obtain p m where
    f: "f = encodeMeta p m @ encodeFloats (c_accX c) @ encodeFloats (c_accY c) @
                 encodeFloats (c_accZ c) @ encodeFloats (c_specX c) @ encodeFloats (c_specY c) @
                 encodeFloats (c_specZ c)"
    and m: "rtcTime m = c_time c" "samplingFreq m = c_fs c"
            "peakX m = c_peakX c" "peakY m = c_peakY c" "peakZ m = c_peakZ c"
    unfolding holdsCapture_def by blast
  have "loadRecord ops e i s =
           (True, loadedFrom ops m (c_accX c) (c_accY c) (c_accZ c)
                    (c_specX c) (c_specY c) (c_specZ c) i s)"
    using assms(1-3) assms(6) [unfolded f] _ _ _ _ _ _ assms(4)
    by (rule loadRecord_of_bytes) (use assms(5) in \<open>simp_all add: capture_ok_def\<close>)
  with m show ?thesis by blast
qed

lemma eviction:
  fixes ops ops2 :: "float32 fpu" and e e2 :: env and s :: "float32 session" and cs :: "capture list"
  assumes "storageReady s" "openRecOk e" "ring_ok s" "storedRecordCount s = 0"
    "int (length cs) = MAX_RECORDS + 1" "list_all capture_ok cs"
  defines "sN \<equiv> acquireAll ops e cs s"
  defines "sL \<equiv> snd (loadRecord ops2 e2 0 sN)"
  shows "storedRecordCount sN = MAX_RECORDS" "fst (loadRecord ops2 e2 0 sN)"
    "currentRecordTime sL = c_time (cs ! 1)" "samplingFrequency sL = c_fs (cs ! 1)"
    "xM sL = c_peakX (cs ! 1)" "yM sL = c_peakY (cs ! 1)" "zM sL = c_peakZ (cs ! 1)"
    "accXvec sL = c_accX (cs ! 1)" "accYvec sL = c_accY (cs ! 1)" "accZvec sL = c_accZ (cs ! 1)"
    "vRealX sL = c_specX (cs ! 1)" "vRealY sL = c_specY (cs ! 1)" "vRealZ sL = c_specZ (cs ! 1)"
proof -
  have all: "\<forall>c \<in> set cs. capture_ok c"
    using assms(6) by (simp add: list_all_iff)
  have len: "length cs = 31"
    using assms(5) by (simp add: MAX_RECORDS_def)
  then have ne: "cs \<noteq> []" by auto
  have ol: "0 \<le> oldestRecordIndex s" "oldestRecordIndex s < 30"
    using assms(3) by (simp_all add: ring_ok_def MAX_RECORDS_def)
  from ringHolds_acquireAll [OF assms(1,3,4,2) all, of ops]
  have inv: "ringHolds (oldestRecordIndex s) cs sN"
    by (simp add: sN_def)
  then have ready: "storageReady sN" and bok: "buffers_ok sN"
    and cnt: "storedRecordCount sN = 30"
    and old: "oldestRecordIndex sN = (oldestRecordIndex s + 1) mod 30"
    using ne by (simp_all add: ringHolds_def len MAX_RECORDS_def)
  from inv have "\<exists>f. recFiles sN ((oldestRecordIndex s + int 1) mod MAX_RECORDS) = Some f
      \<and> holdsCapture f (cs ! 1)"
    unfolding ringHolds_def using len cnt by (elim conjE allE [of _ 1]) simp
  then obtain f where f: "recFiles sN ((oldestRecordIndex s + 1) mod 30) = Some f"
    "holdsCapture f (cs ! 1)"
    by (auto simp: MAX_RECORDS_def)
  have idx: "crem (oldestRecordIndex sN + 0) MAX_RECORDS = (oldestRecordIndex s + 1) mod 30"
    by (simp add: old crem_nonneg MAX_RECORDS_def)
  have cok: "capture_ok (cs ! 1)"
    using all len by simp
  from loadRecord_holdsCapture [OF ready _ _ bok cok f(1) [folded idx] f(2), of ops2 e2]
  obtain m where ld: "loadRecord ops2 e2 0 sN =
           (True, loadedFrom ops2 m (c_accX (cs ! 1)) (c_accY (cs ! 1)) (c_accZ (cs ! 1))
                    (c_specX (cs ! 1)) (c_specY (cs ! 1)) (c_specZ (cs ! 1)) 0 sN)"
    and m: "rtcTime m = c_time (cs ! 1)" "samplingFreq m = c_fs (cs ! 1)"
         "peakX m = c_peakX (cs ! 1)" "peakY m = c_peakY (cs ! 1)" "peakZ m = c_peakZ (cs ! 1)"
    using cnt by auto
  show "storedRecordCount sN = MAX_RECORDS" by (simp add: cnt MAX_RECORDS_def)
  show "fst (loadRecord ops2 e2 0 sN)" by (simp add: ld)
  show "currentRecordTime sL = c_time (cs ! 1)" "samplingFrequency sL = c_fs (cs ! 1)"
    "xM sL = c_peakX (cs ! 1)" "yM sL = c_peakY (cs ! 1)" "zM sL = c_peakZ (cs ! 1)"
    "accXvec sL = c_accX (cs ! 1)" "accYvec sL = c_accY (cs ! 1)" "accZvec sL = c_accZ (cs ! 1)"
    "vRealX sL = c_specX (cs ! 1)" "vRealY sL = c_specY (cs ! 1)" "vRealZ sL = c_specZ (cs ! 1)"
    by (simp_all add: sL_def ld loadedFrom_fields m)
qed

subsection \<open>Appending to the ring\<close>

text \<open>
  Claim C4. On a consistent ring, a successful \<^verbatim>\<open>saveCurrentRecord\<close> below capacity
  leaves the oldest slot, advances the newest slot by one modulo the capacity and adds
  one to the count; at capacity it advances both slots by one modulo the capacity and
  leaves the count. Starting from an empty ring, after capacity + 1 acquisitions the count
  is the capacity and \<^verbatim>\<open>loadRecord(0)\<close> loads the second capture: its start time,
  sampling frequency, peaks, samples and spectra.
\<close>

theorem C4_ring_append_evicts_oldest:
  fixes ops ops2 :: "float32 fpu" and e e2 :: env and s :: "float32 session" and cs :: "capture list"
  assumes "ring_ok s"
  defines "s1 \<equiv> snd (saveCurrentRecord ops e s)"
  defines "sN \<equiv> acquireAll ops e cs s"
  defines "sL \<equiv> snd (loadRecord ops2 e2 0 sN)"
  shows "(fst (saveCurrentRecord ops e s) \<and> storedRecordCount s < MAX_RECORDS \<longrightarrow>
            oldestRecordIndex s1 = oldestRecordIndex s \<and>
            newestRecordIndex s1 = (newestRecordIndex s + 1) mod MAX_RECORDS \<and>
            storedRecordCount s1 = storedRecordCount s + 1) \<and>
         (fst (saveCurrentRecord ops e s) \<and> storedRecordCount s = MAX_RECORDS \<longrightarrow>
            oldestRecordIndex s1 = (oldestRecordIndex s + 1) mod MAX_RECORDS \<and>
            newestRecordIndex s1 = (newestRecordIndex s + 1) mod MAX_RECORDS \<and>
            storedRecordCount s1 = MAX_RECORDS) \<and>
         (storageReady s \<and> openRecOk e \<and> storedRecordCount s = 0 \<and>
          int (length cs) = MAX_RECORDS + 1 \<and> list_all capture_ok cs \<longrightarrow>
            storedRecordCount sN = MAX_RECORDS \<and> fst (loadRecord ops2 e2 0 sN) \<and>
            currentRecordTime sL = c_time (cs ! 1) \<and> samplingFrequency sL = c_fs (cs ! 1) \<and>
            xM sL = c_peakX (cs ! 1) \<and> yM sL = c_peakY (cs ! 1) \<and> zM sL = c_peakZ (cs ! 1) \<and>
            accXvec sL = c_accX (cs ! 1) \<and> accYvec sL = c_accY (cs ! 1) \<and>
            accZvec sL = c_accZ (cs ! 1) \<and> vRealX sL = c_specX (cs ! 1) \<and>
            vRealY sL = c_specY (cs ! 1) \<and> vRealZ sL = c_specZ (cs ! 1))"
proof (intro conjI impI)
  assume a: "fst (saveCurrentRecord ops e s) \<and> storedRecordCount s < MAX_RECORDS"
  then have "storageReady s" by (simp add: fst_save)
  note cur = save_cursor [OF this, of ops e, folded s1_def] advanceRing_ring [OF assms(1)]
  from a show "oldestRecordIndex s1 = oldestRecordIndex s"
    "newestRecordIndex s1 = (newestRecordIndex s + 1) mod MAX_RECORDS"
    "storedRecordCount s1 = storedRecordCount s + 1"
    by (simp_all add: cur)
next
  assume a: "fst (saveCurrentRecord ops e s) \<and> storedRecordCount s = MAX_RECORDS"
  then have "storageReady s" by (simp add: fst_save)
  note cur = save_cursor [OF this, of ops e, folded s1_def] advanceRing_ring [OF assms(1)]
  from a show "oldestRecordIndex s1 = (oldestRecordIndex s + 1) mod MAX_RECORDS"
    "newestRecordIndex s1 = (newestRecordIndex s + 1) mod MAX_RECORDS"
    "storedRecordCount s1 = MAX_RECORDS"
    by (simp_all add: cur)
next
  assume a: "storageReady s \<and> openRecOk e \<and> storedRecordCount s = 0 \<and>
          int (length cs) = MAX_RECORDS + 1 \<and> list_all capture_ok cs"
  then have h: "storageReady s" "openRecOk e" "storedRecordCount s = 0"
    "int (length cs) = MAX_RECORDS + 1" "list_all capture_ok cs"
    by simp_all
  note ev = eviction [OF h(1,2) assms(1) h(3,4,5)]
  show "storedRecordCount sN = MAX_RECORDS" "fst (loadRecord ops2 e2 0 sN)"
    "currentRecordTime sL = c_time (cs ! 1)" "samplingFrequency sL = c_fs (cs ! 1)"
    "xM sL = c_peakX (cs ! 1)" "yM sL = c_peakY (cs ! 1)" "zM sL = c_peakZ (cs ! 1)"
    "accXvec sL = c_accX (cs ! 1)" "accYvec sL = c_accY (cs ! 1)" "accZvec sL = c_accZ (cs ! 1)"
    "vRealX sL = c_specX (cs ! 1)" "vRealY sL = c_specY (cs ! 1)" "vRealZ sL = c_specZ (cs ! 1)"
    unfolding sN_def sL_def by (rule ev)+
qed

lemma demoCaptures_facts:
  "length (demoCaptures n) = n" "list_all capture_ok (demoCaptures n)"
  "k < n \<Longrightarrow> demoCaptures n ! k = demoCapture k"
  by (simp_all add: demoCaptures_def list_all_iff capture_ok_def demoCapture_def)

lemma fullStore_facts:
  "storageReady fullStore" "ring_ok fullStore" "storedRecordCount fullStore = 30"
  "oldestRecordIndex fullStore = 0"
proof -
  have "\<forall>c \<in> set (demoCaptures 30). capture_ok c"
    using demoCaptures_facts(2) [of 30] by (simp add: list_all_iff)
  from ringHolds_acquireAll [OF boot_facts(1,2,4) demoEnv_facts(1) this, of stub_fpu]
  have "ringHolds 0 (demoCaptures 30) fullStore"
    by (simp add: fullStore_def boot_facts)
  then show "storageReady fullStore" "ring_ok fullStore" "storedRecordCount fullStore = 30"
    "oldestRecordIndex fullStore = 0"
    by (simp_all add: ringHolds_def demoCaptures_facts MAX_RECORDS_def)
qed

theorem C4_ring_append_evicts_oldest_witness:
  "ring_ok bootSession \<and> fst (saveCurrentRecord stub_fpu demoEnv bootSession) \<and>
   storedRecordCount bootSession < MAX_RECORDS \<and>
   oldestRecordIndex oneRecordSession = 0 \<and> newestRecordIndex oneRecordSession = 0 \<and>
   storedRecordCount oneRecordSession = 1 \<and>
   ring_ok fullStore \<and> fst (saveCurrentRecord stub_fpu demoEnv fullStore) \<and>
   storedRecordCount fullStore = MAX_RECORDS \<and>
   oldestRecordIndex (snd (saveCurrentRecord stub_fpu demoEnv fullStore)) = 1 \<and>
   storedRecordCount (snd (saveCurrentRecord stub_fpu demoEnv fullStore)) = MAX_RECORDS \<and>
   storageReady bootSession \<and> openRecOk demoEnv \<and> storedRecordCount bootSession = 0 \<and>
   int (length (demoCaptures 31)) = MAX_RECORDS + 1 \<and> list_all capture_ok (demoCaptures 31) \<and>
   storedRecordCount (acquireAll stub_fpu demoEnv (demoCaptures 31) bootSession) = MAX_RECORDS \<and>
   fst (loadRecord stub_fpu demoEnv 0 (acquireAll stub_fpu demoEnv (demoCaptures 31) bootSession)) \<and>
   accXvec (snd (loadRecord stub_fpu demoEnv 0
                   (acquireAll stub_fpu demoEnv (demoCaptures 31) bootSession)))
     = replicate SAMPLES 1"
proof -
  have a: "fst (saveCurrentRecord stub_fpu demoEnv bootSession)"
    "fst (saveCurrentRecord stub_fpu demoEnv fullStore)"
    by (simp_all add: fst_save boot_facts fullStore_facts demoEnv_facts)
  have b: "c_accX (demoCaptures 31 ! 1) = replicate SAMPLES 1"
    by (simp add: demoCaptures_facts demoCapture_def)
  show ?thesis
    using C4_ring_append_evicts_oldest [OF boot_facts(2), of stub_fpu demoEnv "demoCaptures 31" stub_fpu demoEnv]
      C4_ring_append_evicts_oldest [OF fullStore_facts(2), of stub_fpu demoEnv "[]" stub_fpu demoEnv]
      a b
    by (simp add: boot_facts fullStore_facts demoEnv_facts demoCaptures_facts oneRecord_facts
        MAX_RECORDS_def oneRecordSession_def [symmetric])
qed








subsection \<open>The statistics in exact arithmetic\<close>

lemma exact_fpu_simps [simp]:
  "fadd (exact_fpu sq lg fft) = (+)" "fsub (exact_fpu sq lg fft) = (-)"
  "fmul (exact_fpu sq lg fft) = (*)" "fdiv (exact_fpu sq lg fft) = (/)"
  "flt (exact_fpu sq lg fft) = (<)" "fsqrt (exact_fpu sq lg fft) = sq"
  "flog10 (exact_fpu sq lg fft) = lg" "fofint (exact_fpu sq lg fft) = of_int"
  "fftMagnitude (exact_fpu sq lg fft) = fft"
  "flit (exact_fpu sq lg fft) m e =
     of_int m * (if 0 \<le> e then 10 ^ nat e else 1 / 10 ^ nat (- e))"
  by (simp_all add: exact_fpu_def)




















subsection \<open>The two statistics loops\<close>



lemma specBin_segments [simp]: "specSegments (specBin ops sr k s) = specSegments s"
  by (simp add: specBin_def Let_def)

lemma fold_specBin_segments [simp]:
  "specSegments (fold (specBin ops sr) ks s) = specSegments s"
  by (induction ks arbitrary: s) simp_all

lemma specSegment_segments [simp]:
  "specSegments (specSegment ops start s) = specSegments s + 1"
  by (simp add: specSegment_def Let_def)


lemma specFinish_segments:
  "specSegments (specFinish ops s) = (if specSegments s = 0 then 1 else specSegments s)"
  by (simp add: specFinish_def Let_def)





lemma loop_step:
  "start + SEG_LEN \<le> SAMPLES \<Longrightarrow> specSegments s < int SEG_MAX \<Longrightarrow>
   specLoop ops start s = specLoop ops (start + hop) (specSegment ops start s)"
  by (subst specLoop.simps) simp

lemma loop_stop:
  "\<not> start + SEG_LEN \<le> SAMPLES \<Longrightarrow> specLoop ops start s = s"
  by (subst specLoop.simps) simp

lemma hop_64: "hop = 64"
  by (simp add: hop_def overlapSamples_def SEG_LEN_def SEG_OVERLAP_PCT_def)

lemma specLoop_15:
  assumes "specSegments s = 0"
  shows "specSegments (specLoop ops 0 s) = 15"
  using assms
  by (simp add: loop_step loop_stop hop_64 SEG_LEN_def SAMPLES_def SEG_MAX_def)

lemma compute_segments_15:
  "specSegments (computeSpectrogramFromRecord ops s) = 15"
  by (simp add: computeSpectrogramFromRecord_def specFinish_segments specLoop_15)

subsection \<open>Range of the spectrogram\<close>



lemma length_decodeFloats [simp]: "length (decodeFloats bs) = length bs div 4"
  by (induction bs rule: decodeFloats.induct) simp_all

lemma length_fileRead:
  "length mem = n \<Longrightarrow> length (fst (fileRead n rest mem)) = n"
  by (simp add: fileRead_def)

lemma loadRecord_frame:
  fixes ops :: "float32 fpu" and e :: env and i :: int and s :: "float32 session"
  defines "r \<equiv> snd (loadRecord ops e i s)"
  shows "recFiles r = recFiles s" "metaFile r = metaFile s"
    "storedRecordCount r = storedRecordCount s" "oldestRecordIndex r = oldestRecordIndex s"
    "newestRecordIndex r = newestRecordIndex s" "storageReady r = storageReady s"
  unfolding r_def
  by (simp_all add: loadRecord_def Let_def split_def compute_frame split: option.split)

lemma loadRecord_buffers_ok:
  fixes ops :: "float32 fpu"
  assumes "buffers_ok s"
  shows "buffers_ok (snd (loadRecord ops e i s))"
  using assms
  by (simp add: loadRecord_def Let_def split_def compute_frame buffers_ok_def length_fileRead
      sizeof_float_def SAMPLES_def split: option.split)

lemma exportLoop_frame:
  "recFiles (exportLoop ops e rs s) = recFiles s"
  "storedRecordCount (exportLoop ops e rs s) = storedRecordCount s"
  "oldestRecordIndex (exportLoop ops e rs s) = oldestRecordIndex s"
  "storageReady (exportLoop ops e rs s) = storageReady s"
  by (induction rs arbitrary: s; simp add: exportLoop_def loadRecord_frame)+

lemma exportLoop_buffers_ok:
  "buffers_ok s \<Longrightarrow> buffers_ok (exportLoop ops e rs s)"
  by (induction rs arbitrary: s) (simp_all add: exportLoop_def loadRecord_buffers_ok)

lemma twoRecords_store:
  "ringHolds 0 [probeCapture 2, probeCapture 3]
     (acquireAll stub_fpu demoEnv [probeCapture 2, probeCapture 3] bootSession)"
proof -
  have "\<forall>c \<in> set [probeCapture 2, probeCapture 3]. capture_ok c"
    by (simp add: probeCapture_ok)
  from ringHolds_acquireAll [OF boot_facts(1,2,4) demoEnv_facts(1) this, of stub_fpu]
  show ?thesis by (simp add: boot_facts)
qed

lemma liveCapture_frame:
  "storageReady (liveCapture c s) = storageReady s" "recFiles (liveCapture c s) = recFiles s"
  "storedRecordCount (liveCapture c s) = storedRecordCount s"
  "oldestRecordIndex (liveCapture c s) = oldestRecordIndex s"
  "newestRecordIndex (liveCapture c s) = newestRecordIndex s"
  "currentViewRecord (liveCapture c s) = currentViewRecord s"
  "currentRecordTime (liveCapture c s) = c_time c"
  "accXvec (liveCapture c s) = c_accX c" "accYvec (liveCapture c s) = c_accY c"
  "accZvec (liveCapture c s) = c_accZ c" "vRealX (liveCapture c s) = c_specX c"
  "vRealY (liveCapture c s) = c_specY c" "vRealZ (liveCapture c s) = c_specZ c"
  by (simp_all add: liveCapture_def)

lemma acquireAll_view:
  "cs \<noteq> [] \<Longrightarrow> currentViewRecord (acquireAll ops e cs s) = - 1"
  by (induction cs rule: rev_induct) (simp_all add: acquireAll_def finishAcquisition_def Let_def)

lemma twoRecordsLive_facts:
  "currentViewRecord twoRecordsLive = - 1" "storageReady twoRecordsLive"
  "storedRecordCount twoRecordsLive = 2" "oldestRecordIndex twoRecordsLive = 0"
  "buffers_ok twoRecordsLive"
  "\<exists>p m. recFiles twoRecordsLive 1 =
       Some (encodeMeta p m @ encodeFloats (c_accX (probeCapture 3)) @
             encodeFloats (c_accY (probeCapture 3)) @ encodeFloats (c_accZ (probeCapture 3)) @
             encodeFloats (c_specX (probeCapture 3)) @ encodeFloats (c_specY (probeCapture 3)) @
             encodeFloats (c_specZ (probeCapture 3)))"
proof -
  note h = twoRecords_store [unfolded ringHolds_def]
  show "currentViewRecord twoRecordsLive = - 1"
    by (simp add: twoRecordsLive_def liveCapture_frame acquireAll_view)
  show "storageReady twoRecordsLive" using h by (simp add: twoRecordsLive_def liveCapture_frame)
  show "storedRecordCount twoRecordsLive = 2"
    using h by (simp add: twoRecordsLive_def liveCapture_frame MAX_RECORDS_def)
  show "oldestRecordIndex twoRecordsLive = 0"
    using h by (simp add: twoRecordsLive_def liveCapture_frame MAX_RECORDS_def)
  show "buffers_ok twoRecordsLive"
    using probeCapture_ok [of 5]
    by (simp add: twoRecordsLive_def liveCapture_frame buffers_ok_def capture_ok_def)
  from h have "\<forall>j. int (length [probeCapture 2, probeCapture 3]) -
        storedRecordCount (acquireAll stub_fpu demoEnv [probeCapture 2, probeCapture 3] bootSession) \<le> int j \<and>
        j < length [probeCapture 2, probeCapture 3] \<longrightarrow>
          (\<exists>f. recFiles (acquireAll stub_fpu demoEnv [probeCapture 2, probeCapture 3] bootSession)
                  ((0 + int j) mod MAX_RECORDS) = Some f \<and>
               holdsCapture f ([probeCapture 2, probeCapture 3] ! j))"
    by blast
  from this [rule_format, of 1] h
  obtain f where "recFiles (acquireAll stub_fpu demoEnv [probeCapture 2, probeCapture 3] bootSession) 1 = Some f"
    "holdsCapture f (probeCapture 3)"
    by (auto simp: MAX_RECORDS_def)
  then show "\<exists>p m. recFiles twoRecordsLive 1 =
       Some (encodeMeta p m @ encodeFloats (c_accX (probeCapture 3)) @
             encodeFloats (c_accY (probeCapture 3)) @ encodeFloats (c_accZ (probeCapture 3)) @
             encodeFloats (c_specX (probeCapture 3)) @ encodeFloats (c_specY (probeCapture 3)) @
             encodeFloats (c_specZ (probeCapture 3)))"
    unfolding holdsCapture_def twoRecordsLive_def liveCapture_frame by blast
qed

subsection \<open>Bulk export from the live view\<close>

text \<open>
  Claim C10. \<^verbatim>\<open>exportAllRecordsSerial\<close> is run while the view is live
  (\<^verbatim>\<open>currentViewRecord = -1\<close>) on a store with at least one record whose newest file is
  complete. Afterwards the view is still marked live and the record time is the one from
  before, but the six data arrays hold the samples and spectra of the last exported
  record (as do the sampling frequency and the peaks): only the view index and the record
  time are restored.
\<close>

theorem C10_export_leaves_last_record_in_live_buffers:
  fixes ops :: "float32 fpu" and e :: env and s :: "float32 session"
    and m :: "float32 RecordMeta" and a1 a2 a3 a4 a5 a6 :: "float32 list"
  assumes "currentViewRecord s = - 1" "storageReady s" "0 < storedRecordCount s" "buffers_ok s"
    and "recFiles s (crem (oldestRecordIndex s + (storedRecordCount s - 1)) MAX_RECORDS) =
           Some (encodeMeta p m @ encodeFloats a1 @ encodeFloats a2 @ encodeFloats a3 @
                 encodeFloats a4 @ encodeFloats a5 @ encodeFloats a6)"
    and "length a1 = SAMPLES" "length a2 = SAMPLES" "length a3 = SAMPLES"
        "length a4 = SAMPLES" "length a5 = SAMPLES" "length a6 = SAMPLES"
  defines "s' \<equiv> exportAllRecordsSerial ops e s"
  shows "currentViewRecord s' = - 1 \<and> currentRecordTime s' = currentRecordTime s \<and>
         accXvec s' = a1 \<and> accYvec s' = a2 \<and> accZvec s' = a3 \<and>
         vRealX s' = a4 \<and> vRealY s' = a5 \<and> vRealZ s' = a6 \<and>
         samplingFrequency s' = samplingFreq m \<and>
         xM s' = peakX m \<and> yM s' = peakY m \<and> zM s' = peakZ m"
proof -
  define c where "c = storedRecordCount s"
  define mid where "mid = exportLoop ops e [0 .. c - 2] s"
  have up: "[0 .. c - 1] = [0 .. c - 2] @ [c - 1]"
    using assms(3) upto_rec2 [of 0 "c - 1"] by (simp add: c_def)
  have loop: "fold (\<lambda>r st. snd (loadRecord ops e r st)) [0 .. storedRecordCount s - 1] s
      = snd (loadRecord ops e (c - 1) mid)"
    unfolding c_def [symmetric] up by (simp add: mid_def exportLoop_def)
  have fr: "recFiles mid = recFiles s" "storedRecordCount mid = c"
    "oldestRecordIndex mid = oldestRecordIndex s" "storageReady mid"
    "buffers_ok mid"
    using assms(2,4) by (simp_all add: mid_def exportLoop_frame exportLoop_buffers_ok c_def)
  have ld: "loadRecord ops e (c - 1) mid = (True, loadedFrom ops m a1 a2 a3 a4 a5 a6 (c - 1) mid)"
    using assms(3,5-11) fr
    by (intro loadRecord_of_bytes) (simp_all add: c_def)
  have "s' = (loadedFrom ops m a1 a2 a3 a4 a5 a6 (c - 1) mid)
      \<lparr> currentViewRecord := - 1, currentRecordTime := currentRecordTime s \<rparr>"
    unfolding s'_def exportAllRecordsSerial_def Let_def loop ld
    using assms(1) by simp
  then show ?thesis
    by (simp add: loadedFrom_fields)
qed

theorem C10_export_leaves_last_record_in_live_buffers_witness:
  "currentViewRecord twoRecordsLive = - 1 \<and> storageReady twoRecordsLive \<and>
   0 < storedRecordCount twoRecordsLive \<and> buffers_ok twoRecordsLive \<and>
   (\<exists>p m. recFiles twoRecordsLive
             (crem (oldestRecordIndex twoRecordsLive + (storedRecordCount twoRecordsLive - 1))
                MAX_RECORDS) =
       Some (encodeMeta p m @ encodeFloats (c_accX (probeCapture 3)) @
             encodeFloats (c_accY (probeCapture 3)) @ encodeFloats (c_accZ (probeCapture 3)) @
             encodeFloats (c_specX (probeCapture 3)) @ encodeFloats (c_specY (probeCapture 3)) @
             encodeFloats (c_specZ (probeCapture 3)))) \<and>
   accXvec twoRecordsLive = c_accX (probeCapture 5) \<and>
   c_accX (probeCapture 5) \<noteq> c_accX (probeCapture 3) \<and>
   currentRecordTime twoRecordsLive = c_time (probeCapture 5) \<and>
   currentViewRecord (exportAllRecordsSerial stub_fpu demoEnv twoRecordsLive) = - 1 \<and>
   currentRecordTime (exportAllRecordsSerial stub_fpu demoEnv twoRecordsLive)
     = c_time (probeCapture 5) \<and>
   accXvec (exportAllRecordsSerial stub_fpu demoEnv twoRecordsLive) = c_accX (probeCapture 3) \<and>
   accYvec (exportAllRecordsSerial stub_fpu demoEnv twoRecordsLive) = c_accY (probeCapture 3) \<and>
   accZvec (exportAllRecordsSerial stub_fpu demoEnv twoRecordsLive) = c_accZ (probeCapture 3) \<and>
   vRealX (exportAllRecordsSerial stub_fpu demoEnv twoRecordsLive) = c_specX (probeCapture 3) \<and>
   vRealY (exportAllRecordsSerial stub_fpu demoEnv twoRecordsLive) = c_specY (probeCapture 3) \<and>
   vRealZ (exportAllRecordsSerial stub_fpu demoEnv twoRecordsLive) = c_specZ (probeCapture 3)"
proof -
  have sl: "crem (oldestRecordIndex twoRecordsLive + (storedRecordCount twoRecordsLive - 1))
      MAX_RECORDS = 1"
    by (simp add: twoRecordsLive_facts crem_def cdiv_def MAX_RECORDS_def)
  from twoRecordsLive_facts(6) obtain p m where
    f: "recFiles twoRecordsLive
          (crem (oldestRecordIndex twoRecordsLive + (storedRecordCount twoRecordsLive - 1))
             MAX_RECORDS) =
       Some (encodeMeta p m @ encodeFloats (c_accX (probeCapture 3)) @
             encodeFloats (c_accY (probeCapture 3)) @ encodeFloats (c_accZ (probeCapture 3)) @
             encodeFloats (c_specX (probeCapture 3)) @ encodeFloats (c_specY (probeCapture 3)) @
             encodeFloats (c_specZ (probeCapture 3)))"
    unfolding sl by blast
  have l: "length (c_accX (probeCapture 3)) = SAMPLES" "length (c_accY (probeCapture 3)) = SAMPLES"
    "length (c_accZ (probeCapture 3)) = SAMPLES" "length (c_specX (probeCapture 3)) = SAMPLES"
    "length (c_specY (probeCapture 3)) = SAMPLES" "length (c_specZ (probeCapture 3)) = SAMPLES"
    using probeCapture_ok [of 3] by (simp_all add: capture_ok_def)
  have p: "0 < storedRecordCount twoRecordsLive"
    by (simp add: twoRecordsLive_facts)
  have ne: "c_accX (probeCapture 5) \<noteq> c_accX (probeCapture 3)"
  proof
    assume "c_accX (probeCapture 5) = c_accX (probeCapture 3)"
    then have "c_accX (probeCapture 5) ! 0 = c_accX (probeCapture 3) ! 0" by simp
    then show False by (simp add: probeCapture_def SAMPLES_def)
  qed
  have lv: "accXvec twoRecordsLive = c_accX (probeCapture 5)"
    "currentRecordTime twoRecordsLive = c_time (probeCapture 5)"
    by (simp_all add: twoRecordsLive_def liveCapture_frame)
  from C10_export_leaves_last_record_in_live_buffers
         [OF twoRecordsLive_facts(1,2) p twoRecordsLive_facts(5) f l, of stub_fpu demoEnv]
  have "currentViewRecord (exportAllRecordsSerial stub_fpu demoEnv twoRecordsLive) = - 1 \<and>
   currentRecordTime (exportAllRecordsSerial stub_fpu demoEnv twoRecordsLive)
     = c_time (probeCapture 5) \<and>
   accXvec (exportAllRecordsSerial stub_fpu demoEnv twoRecordsLive) = c_accX (probeCapture 3) \<and>
   accYvec (exportAllRecordsSerial stub_fpu demoEnv twoRecordsLive) = c_accY (probeCapture 3) \<and>
   accZvec (exportAllRecordsSerial stub_fpu demoEnv twoRecordsLive) = c_accZ (probeCapture 3) \<and>
   vRealX (exportAllRecordsSerial stub_fpu demoEnv twoRecordsLive) = c_specX (probeCapture 3) \<and>
   vRealY (exportAllRecordsSerial stub_fpu demoEnv twoRecordsLive) = c_specY (probeCapture 3) \<and>
   vRealZ (exportAllRecordsSerial stub_fpu demoEnv twoRecordsLive) = c_specZ (probeCapture 3)"
    by (simp add: lv)
  moreover have "\<exists>p m. recFiles twoRecordsLive
             (crem (oldestRecordIndex twoRecordsLive + (storedRecordCount twoRecordsLive - 1))
                MAX_RECORDS) =
       Some (encodeMeta p m @ encodeFloats (c_accX (probeCapture 3)) @
             encodeFloats (c_accY (probeCapture 3)) @ encodeFloats (c_accZ (probeCapture 3)) @
             encodeFloats (c_specX (probeCapture 3)) @ encodeFloats (c_specY (probeCapture 3)) @
             encodeFloats (c_specZ (probeCapture 3)))"
    using f by blast
  ultimately show ?thesis
    using twoRecordsLive_facts(1,2,5) p ne lv by blast
qed

lemma length_trim: "length (trim s) \<le> length s"
proof -
  have "length (trim s) \<le> length (dropWhile isspace s)"
    unfolding trim_def by (simp add: length_dropWhile_le [of isspace "rev (dropWhile isspace s)", simplified])
  also have "\<dots> \<le> length s" by (rule length_dropWhile_le)
  finally show ?thesis .
qed

lemma length_substring: "l \<le> r \<Longrightarrow> length (substring l r s) \<le> r - l"
  by (auto simp add: substring_def Let_def min_def max_def)

lemma digitsVal_bounds:
  "0 \<le> acc \<Longrightarrow> acc \<le> digitsVal acc cs \<and> digitsVal acc cs < (acc + 1) * 10 ^ length cs"
proof (induction cs arbitrary: acc)
  case Nil
  then show ?case by simp
next
  case (Cons c cs)
  show ?case
  proof (cases "isdigit c")
    case True
    define d where "d = int (of_char c) - 48"
    from True have d: "0 \<le> d" "d \<le> 9"
      by (simp_all add: isdigit_def d_def)
    with Cons.prems have "0 \<le> acc * 10 + d" by simp
    from Cons.IH [OF this]
    have 1: "acc * 10 + d \<le> digitsVal (acc * 10 + d) cs"
      and 2: "digitsVal (acc * 10 + d) cs < (acc * 10 + d + 1) * 10 ^ length cs"
      by simp_all
    have "(acc * 10 + d + 1) * 10 ^ length cs \<le> ((acc + 1) * 10) * 10 ^ length cs"
      using d by (intro mult_right_mono) simp_all
    also have "\<dots> = (acc + 1) * 10 ^ length (c # cs)"
      by simp
    finally have le: "(acc * 10 + d + 1) * 10 ^ length cs \<le> (acc + 1) * 10 ^ length (c # cs)" .
    from 2 le have 3: "digitsVal (acc * 10 + d) cs < (acc + 1) * 10 ^ length (c # cs)"
      by (rule less_le_trans)
    have 4: "acc \<le> acc * 10 + d"
      using Cons.prems d by simp
    have "digitsVal acc (c # cs) = digitsVal (acc * 10 + d) cs"
      using True by (simp add: d_def)
    with 1 3 4 show ?thesis
      by simp
  next
    case False
    have "(1::int) \<le> 10 ^ length (c # cs)"
      by (intro one_le_power) simp
    from mult_left_mono [OF this, of "acc + 1"] Cons.prems
    have "acc + 1 \<le> (acc + 1) * 10 ^ length (c # cs)"
      by simp
    moreover have "digitsVal acc (c # cs) = acc"
      using False by simp
    ultimately show ?thesis
      by simp
  qed
qed

lemma toInt_bounds: "- (10 ^ (length s - 1)) < toInt s \<and> toInt s < 10 ^ length s"
proof (cases "dropWhile isspace s")
  case Nil
  show ?thesis unfolding toInt_def Nil by simp
next
  case (Cons c cs)
  have len: "Suc (length cs) \<le> length s"
    using length_dropWhile_le [of isspace s] Cons by simp
  then have p1: "(10::int) ^ length cs \<le> 10 ^ (length s - 1)"
    by (intro power_increasing) simp_all
  from len have p2: "(10::int) ^ Suc (length cs) \<le> 10 ^ length s"
    by (intro power_increasing) simp_all
  have p3: "(10::int) ^ length cs \<le> 10 ^ Suc (length cs)"
    by (intro power_increasing) simp_all
  have b1: "0 \<le> digitsVal 0 cs" "digitsVal 0 cs < 10 ^ length cs"
    using digitsVal_bounds [of 0 cs] by simp_all
  have b2: "0 \<le> digitsVal 0 (c # cs)" "digitsVal 0 (c # cs) < 10 ^ Suc (length cs)"
    using digitsVal_bounds [of 0 "c # cs"] by simp_all
  have pos: "(0::int) < 10 ^ (length s - 1)" by simp
  consider "c = CHR ''-''" | "c \<noteq> CHR ''-''" "c = CHR ''+''" | "c \<noteq> CHR ''-''" "c \<noteq> CHR ''+''"
    by blast
  then show ?thesis
  proof cases
    case 1
    then have "toInt s = - digitsVal 0 cs" by (simp add: toInt_def Cons)
    with b1 p1 p2 p3 show ?thesis by linarith
  next
    case 2
    then have "toInt s = digitsVal 0 cs" by (simp add: toInt_def Cons)
    with b1 p1 p2 p3 pos show ?thesis by linarith
  next
    case 3
    then have "toInt s = digitsVal 0 (c # cs)" by (simp add: toInt_def Cons del: digitsVal.simps)
    with b2 p2 pos show ?thesis by linarith
  qed
qed

lemma toInt_substring4:
  "- 1000 < toInt (substring 0 4 s) \<and> toInt (substring 0 4 s) < 10000"
proof -
  have l: "length (substring 0 4 s) \<le> 4"
    using length_substring [of 0 4 s] by simp
  then have "(10::int) ^ length (substring 0 4 s) \<le> 10 ^ 4"
    by (intro power_increasing) simp_all
  moreover from l have "(10::int) ^ (length (substring 0 4 s) - 1) \<le> 10 ^ 3"
    by (intro power_increasing) simp_all
  ultimately show ?thesis
    using toInt_bounds [of "substring 0 4 s"] by simp
qed

lemma toInt_substring2:
  assumes "r = l + 2"
  shows "- 10 < toInt (substring l r s) \<and> toInt (substring l r s) < 100"
proof -
  have l: "length (substring l r s) \<le> 2"
    using length_substring [of l r s] assms by simp
  then have "(10::int) ^ length (substring l r s) \<le> 10 ^ 2"
    by (intro power_increasing) simp_all
  moreover from l have "(10::int) ^ (length (substring l r s) - 1) \<le> 10 ^ 1"
    by (intro power_increasing) simp_all
  ultimately show ?thesis
    using toInt_bounds [of "substring l r s"] by simp
qed

lemma uint_of_small:
  assumes "- 1000 < v" "v < 10000"
  shows "uint (word_of_int v :: 16 word) = (if 0 \<le> v then v else v + 65536)"
proof -
  have "uint (word_of_int v :: 16 word) = v mod 65536"
    by (simp add: uint_word_of_int_eq take_bit_eq_mod)
  also have "\<dots> = (if 0 \<le> v then v else v + 65536)"
  proof (cases "0 \<le> v")
    case True
    with assms show ?thesis by simp
  next
    case False
    with assms have "(v + 65536) mod 65536 = v + 65536"
      by (intro mod_pos_pos_trivial) simp_all
    with False show ?thesis by simp
  qed
  finally show ?thesis .
qed

lemma year_check:
  assumes "- 1000 < v" "v < 10000"
  shows "((word_of_int v :: 16 word) < 2020 \<or> (word_of_int v :: 16 word) > 2099)
         \<longleftrightarrow> (v < 2020 \<or> 2099 < v)"
  using assms by (simp add: word_less_def uint_of_small)

lemma uint8_of_small:
  assumes "- 10 < v" "v < 100"
  shows "uint (word_of_int v :: 8 word) = (if 0 \<le> v then v else v + 256)"
proof -
  have "uint (word_of_int v :: 8 word) = v mod 256"
    by (simp add: uint_word_of_int_eq take_bit_eq_mod)
  also have "\<dots> = (if 0 \<le> v then v else v + 256)"
  proof (cases "0 \<le> v")
    case True
    with assms show ?thesis by simp
  next
    case False
    with assms have "(v + 256) mod 256 = v + 256"
      by (intro mod_pos_pos_trivial) simp_all
    with False show ?thesis by simp
  qed
  finally show ?thesis .
qed

lemma field_check:
  assumes "- 10 < v" "v < 100"
  shows "((word_of_int v :: 8 word) < 1 \<or> (word_of_int v :: 8 word) > 12) \<longleftrightarrow> (v < 1 \<or> 12 < v)"
    "((word_of_int v :: 8 word) < 1 \<or> (word_of_int v :: 8 word) > 31) \<longleftrightarrow> (v < 1 \<or> 31 < v)"
    "(word_of_int v :: 8 word) > 23 \<longleftrightarrow> (v < 0 \<or> 23 < v)"
    "(word_of_int v :: 8 word) > 59 \<longleftrightarrow> (v < 0 \<or> 59 < v)"
  using assms by (auto simp add: word_less_def uint8_of_small)

subsection \<open>Validation of the wall-clock string\<close>

text \<open>
  Claim C9. Let the fields be the numbers that \<^verbatim>\<open>toInt\<close> reads at the six positions of
  the trimmed string. If the string (trimmed or not) has fewer than 19 characters, or the
  year is outside 2020--2099, the month outside 1--12, the day outside 1--31, the hour
  outside 0--23, the minute or the second outside 0--59, then \<^verbatim>\<open>parseAndSetTime\<close> returns
  false and leaves the clock as it was. When it returns true every field is in range
  and the clock holds exactly these fields; when it returns false the clock is unchanged.
\<close>

theorem C9_parseAndSetTime_validates:
  fixes timeStr :: string and rtc :: RecordDateTime
  defines "t \<equiv> trim timeStr"
  defines "y \<equiv> toInt (substring 0 4 t)" and "mo \<equiv> toInt (substring 5 7 t)"
    and "d \<equiv> toInt (substring 8 10 t)" and "h \<equiv> toInt (substring 11 13 t)"
    and "mi \<equiv> toInt (substring 14 16 t)" and "se \<equiv> toInt (substring 17 19 t)"
  defines "r \<equiv> parseAndSetTime timeStr rtc"
  shows "(length timeStr < 19 \<or> length t < 19 \<or> y < 2020 \<or> 2099 < y \<or> mo < 1 \<or> 12 < mo \<or>
          d < 1 \<or> 31 < d \<or> h < 0 \<or> 23 < h \<or> mi < 0 \<or> 59 < mi \<or> se < 0 \<or> 59 < se
            \<longrightarrow> r = (False, rtc)) \<and>
         (fst r \<longrightarrow>
            19 \<le> length t \<and> 2020 \<le> y \<and> y \<le> 2099 \<and> 1 \<le> mo \<and> mo \<le> 12 \<and> 1 \<le> d \<and> d \<le> 31 \<and>
            0 \<le> h \<and> h \<le> 23 \<and> 0 \<le> mi \<and> mi \<le> 59 \<and> 0 \<le> se \<and> se \<le> 59 \<and>
            uint (year (snd r)) = y \<and> uint (month (snd r)) = mo \<and> uint (day (snd r)) = d \<and>
            uint (hour (snd r)) = h \<and> uint (minute (snd r)) = mi \<and> uint (second (snd r)) = se) \<and>
         (\<not> fst r \<longrightarrow> snd r = rtc)"
proof -
  define bad where "bad \<longleftrightarrow> y < 2020 \<or> 2099 < y \<or> mo < 1 \<or> 12 < mo \<or>
          d < 1 \<or> 31 < d \<or> h < 0 \<or> 23 < h \<or> mi < 0 \<or> 59 < mi \<or> se < 0 \<or> 59 < se"
  have yb: "- 1000 < y" "y < 10000"
    using toInt_substring4 [of t] by (simp_all add: y_def)
  have b2: "- 10 < mo" "mo < 100" "- 10 < d" "d < 100" "- 10 < h" "h < 100"
    "- 10 < mi" "mi < 100" "- 10 < se" "se < 100"
    using toInt_substring2 [of 7 5 t] toInt_substring2 [of 10 8 t] toInt_substring2 [of 13 11 t]
      toInt_substring2 [of 16 14 t] toInt_substring2 [of 19 17 t]
    by (simp_all add: mo_def d_def h_def mi_def se_def)
  note chk = year_check [OF yb] field_check(1) [OF b2(1,2)] field_check(2) [OF b2(3,4)]
    field_check(3) [OF b2(5,6)] field_check(4) [OF b2(7,8)] field_check(4) [OF b2(9,10)]
  have short: "length timeStr < 19 \<Longrightarrow> length t < 19"
    using length_trim [of timeStr] by (simp add: t_def)
  have r: "r = (if length t < 19 \<or> bad then (False, rtc) else (True, setRtcTime (parseFields t) rtc))"
    unfolding r_def parseAndSetTime_def Let_def t_def [symmetric]
    using chk
    by (auto simp add: parseFields_def y_def [symmetric] mo_def [symmetric] d_def [symmetric]
        h_def [symmetric] mi_def [symmetric] se_def [symmetric] bad_def)
  have ok: "uint (year (snd r)) = y \<and> uint (month (snd r)) = mo \<and> uint (day (snd r)) = d \<and>
            uint (hour (snd r)) = h \<and> uint (minute (snd r)) = mi \<and> uint (second (snd r)) = se"
    if "\<not> bad" "\<not> length t < 19"
    using that yb b2
    by (simp add: r setRtcTime_def parseFields_def uint_of_small uint8_of_small
        y_def [symmetric] mo_def [symmetric] d_def [symmetric]
        h_def [symmetric] mi_def [symmetric] se_def [symmetric] bad_def)
  show ?thesis
    using short ok unfolding r bad_def by auto
qed

lemma parse_month_13: "toInt (substring 5 7 (trim ''2025-13-15 14:30:00'')) = 13"
  by code_simp

lemma parse_trimmed_accepted: "fst (parseAndSetTime ''  2025-01-15 14:30:00 '' zeroTime)"
  by code_simp

lemma parse_short_string: "length ''2025-01-15 14:30'' < 19"
  by simp

theorem C9_parseAndSetTime_validates_witness:
  "12 < toInt (substring 5 7 (trim ''2025-13-15 14:30:00'')) \<and>
   parseAndSetTime ''2025-13-15 14:30:00'' zeroTime = (False, zeroTime) \<and>
   length ''2025-01-15 14:30'' < 19 \<and>
   parseAndSetTime ''2025-01-15 14:30'' zeroTime = (False, zeroTime) \<and>
   fst (parseAndSetTime ''  2025-01-15 14:30:00 '' zeroTime) \<and>
   uint (year (snd (parseAndSetTime ''  2025-01-15 14:30:00 '' zeroTime))) =
     toInt (substring 0 4 (trim ''  2025-01-15 14:30:00 '')) \<and>
   toInt (substring 0 4 (trim ''  2025-01-15 14:30:00 '')) \<le> 2099"
proof -
  have 1: "12 < toInt (substring 5 7 (trim ''2025-13-15 14:30:00''))"
    by (simp add: parse_month_13)
  from C9_parseAndSetTime_validates [of "''2025-13-15 14:30:00''" zeroTime] 1
  have 2: "parseAndSetTime ''2025-13-15 14:30:00'' zeroTime = (False, zeroTime)"
    by blast
  from C9_parseAndSetTime_validates [of "''2025-01-15 14:30''" zeroTime] parse_short_string
  have 3: "parseAndSetTime ''2025-01-15 14:30'' zeroTime = (False, zeroTime)"
    by blast
  from C9_parseAndSetTime_validates [of "''  2025-01-15 14:30:00 ''" zeroTime] parse_trimmed_accepted
  have 4: "uint (year (snd (parseAndSetTime ''  2025-01-15 14:30:00 '' zeroTime))) =
     toInt (substring 0 4 (trim ''  2025-01-15 14:30:00 ''))"
    "toInt (substring 0 4 (trim ''  2025-01-15 14:30:00 '')) \<le> 2099"
    by blast+
  from 1 2 3 4 parse_trimmed_accepted parse_short_string show ?thesis by blast
qed






subsection \<open>The measured sampling frequency\<close>



end
